theory Spec2Isabelle
  imports Complex_Main "HOL-Library.Multiset"
begin

section \<open>Data model of the ATSP environment\<close>

text \<open>
  Tensors of the source are nested lists whose outermost level is the batch dimension.
  A distance matrix is a list of rows; the float32 entries are read as real numbers, so
  rounding is outside the model.  Node indices and step counters are int64 in the source
  and unbounded integers here.
\<close>

type_synonym matrix = "real list list"

text \<open>
  What the source can raise: the failed assertion of \<open>get_reward\<close> (message
  "Invalid tour"), and the index and shape errors of the tensor library.
\<close>

datatype error = InvalidTour | IndexError | RuntimeError

section \<open>Tour validation and scoring: \<open>get_reward\<close>\<close>

text \<open>\<open>torch.roll(actions, 1, dims=1)\<close> on one row: the last element moves to the front.\<close>

definition roll1 :: "'a list \<Rightarrow> 'a list" where
  "roll1 xs = (if xs = [] then [] else last xs # butlast xs)"

text \<open>
  The assertion of \<open>get_reward\<close> on one row: the sorted row equals
  \<open>arange(actions.size(1))\<close>.
\<close>

definition valid_tour :: "int list \<Rightarrow> bool" where
  "valid_tour row = (sort row = map int [0..<length row])"

text \<open>
  Reading \<open>m[s, t]\<close> by integer indices: a negative index counts from the end, an index
  outside the dimension raises.
\<close>

definition norm_index :: "nat \<Rightarrow> int \<Rightarrow> nat option" where
  "norm_index n k =
     (if 0 \<le> k \<and> k < int n then Some (nat k)
      else if k < 0 \<and> - int n \<le> k then Some (nat (int n + k))
      else None)"

definition entry :: "matrix \<Rightarrow> int \<Rightarrow> int \<Rightarrow> error + real" where
  "entry m s t =
     (case norm_index (length m) s of
        None \<Rightarrow> Inl IndexError
      | Some a \<Rightarrow>
          (case norm_index (length (m ! a)) t of
             None \<Rightarrow> Inl IndexError
           | Some b \<Rightarrow> Inr (m ! a ! b)))"

text \<open>Collecting a list of results: the first error wins.\<close>

fun collect :: "(error + 'a) list \<Rightarrow> error + 'a list" where
  "collect [] = Inr []"
| "collect (Inl e # rs) = Inl e"
| "collect (Inr v # rs) = (case collect rs of Inl e \<Rightarrow> Inl e | Inr vs \<Rightarrow> Inr (v # vs))"

text \<open>
  One row of \<open>distance_matrix[batch_idx, nodes_src, nodes_tgt].sum(-1)\<close>: the entries
  \<open>m[src[k], tgt[k]]\<close> with \<open>tgt = roll(src, 1)\<close>, summed.
\<close>

definition tour_cost :: "matrix \<Rightarrow> int list \<Rightarrow> error + real" where
  "tour_cost m nodes_src =
     (case collect (map2 (entry m) nodes_src (roll1 nodes_src)) of
        Inl e \<Rightarrow> Inl e
      | Inr ws \<Rightarrow> Inr (sum_list ws))"

text \<open>
  \<open>get_reward\<close> on a batch.  The assertion is taken over the whole batch (\<open>.all()\<close>), so
  one invalid row fails the call for every instance.  The index tensors
  \<open>batch_idx\<close> (one entry per matrix) and \<open>actions\<close> (one row per instance) are
  broadcast against each other: equal batch sizes pair up, a batch of one is repeated,
  anything else raises.
\<close>

definition get_reward :: "matrix list \<Rightarrow> int list list \<Rightarrow> error + real list" where
  "get_reward distance_matrix actions =
     (if \<not> list_all valid_tour actions then Inl InvalidTour
      else
        let bd = length distance_matrix; ba = length actions in
        if bd = ba then collect (map2 tour_cost distance_matrix actions)
        else if bd = 1 then collect (map (tour_cost (distance_matrix ! 0)) actions)
        else if ba = 1 then collect (map (\<lambda>m. tour_cost m (actions ! 0)) distance_matrix)
        else Inl IndexError)"

text \<open>Shape of one \<open>n \<times> n\<close> matrix.\<close>

definition square :: "nat \<Rightarrow> matrix \<Rightarrow> bool" where
  "square n m = (length m = n \<and> list_all (\<lambda>row. length row = n) m)"

section \<open>The environment: \<open>generate_data\<close>, \<open>reset\<close> and \<open>step\<close>\<close>

text \<open>
  The attributes of \<open>ATSPEnv\<close> set by \<open>__init__\<close>, and the batch size the
  environment inherits from its base class.  \<open>__init__\<close> stores its arguments and
  checks none of them.
\<close>

record env =
  num_loc :: nat
  min_dist :: real
  max_dist :: real
  batch_size :: nat

definition init :: "nat \<Rightarrow> real \<Rightarrow> real \<Rightarrow> nat \<Rightarrow> env" where
  "init n lo hi bs = \<lparr>num_loc = n, min_dist = lo, max_dist = hi, batch_size = bs\<rparr>"

subsection \<open>Metric generator\<close>

text \<open>
  \<open>torch.rand((*batch_size, num_loc, num_loc)) * (max_dist - min_dist) + min_dist\<close>.
  The random draw is a parameter: \<open>rand b i j\<close> is the number drawn for entry
  \<open>(i, j)\<close> of instance \<open>b\<close>.
\<close>

definition scaled_rand :: "env \<Rightarrow> nat \<Rightarrow> (nat \<Rightarrow> nat \<Rightarrow> nat \<Rightarrow> real) \<Rightarrow> matrix list" where
  "scaled_rand e bs rand =
     map (\<lambda>b. map (\<lambda>i. map (\<lambda>j. rand b i j * (max_dist e - min_dist e) + min_dist e)
                           [0..<num_loc e])
                [0..<num_loc e])
         [0..<bs]"

text \<open>\<open>dms[..., arange(num_loc), arange(num_loc)] = 0\<close> on one matrix.\<close>

definition zero_diagonal :: "nat \<Rightarrow> matrix \<Rightarrow> matrix" where
  "zero_diagonal n m = map (\<lambda>i. (m ! i)[i := 0]) [0..<n]"

text \<open>
  One pass of the loop body on one matrix:
  \<open>(dms[:, None, :] + dms[None, :, :].transpose(-2, -1)).min(dim=-1)\<close>, that is,
  entry \<open>(i, j)\<close> becomes the least \<open>d[i][k] + d[k][j]\<close> over all \<open>k\<close>.
\<close>

definition relax :: "nat \<Rightarrow> matrix \<Rightarrow> matrix" where
  "relax n d =
     map (\<lambda>i. map (\<lambda>j. min_list (map (\<lambda>k. d ! i ! k + d ! k ! j) [0..<n])) [0..<n]) [0..<n]"

text \<open>
  The pass on the batch.  The reduction \<open>min(dim=-1)\<close> over a dimension of size zero
  raises in the tensor library, whatever the batch size.
\<close>

definition relax_batch :: "nat \<Rightarrow> matrix list \<Rightarrow> error + matrix list" where
  "relax_batch n dms = (if n = 0 then Inl IndexError else Inr (map (relax n) dms))"

text \<open>
  The \<open>while True\<close> loop of \<open>generate_data\<close>: it leaves when a pass changes no entry of
  any matrix of the batch, and returns the matrices of that last pass.  A run that never
  leaves the loop is \<open>None\<close>.
\<close>

partial_function (option) closure_loop :: "nat \<Rightarrow> matrix list \<Rightarrow> (error + matrix list) option"
  where
  "closure_loop n dms =
     (let old_dms = dms in
      case relax_batch n dms of
        Inl e \<Rightarrow> Some (Inl e)
      | Inr dms' \<Rightarrow> if dms' = old_dms then Some (Inr dms') else closure_loop n dms')"

definition generate_data ::
  "env \<Rightarrow> nat \<Rightarrow> (nat \<Rightarrow> nat \<Rightarrow> nat \<Rightarrow> real) \<Rightarrow> (error + matrix list) option" where
  "generate_data e bs rand =
     (let dms = scaled_rand e bs rand;
          dms = map (zero_diagonal (num_loc e)) dms
      in closure_loop (num_loc e) dms)"

text \<open>
  The same loop with a bound on the number of passes, for counting them:
  \<open>closure_passes f n dms\<close> is \<open>None\<close> when the loop has not left after \<open>f\<close> passes.
\<close>

fun closure_passes :: "nat \<Rightarrow> nat \<Rightarrow> matrix list \<Rightarrow> (error + matrix list) option" where
  "closure_passes 0 n dms = None"
| "closure_passes (Suc f) n dms =
     (case relax_batch n dms of
        Inl e \<Rightarrow> Some (Inl e)
      | Inr dms' \<Rightarrow> if dms' = dms then Some (Inr dms') else closure_passes f n dms')"

subsection \<open>Episode state\<close>

text \<open>
  The tensordict of an episode, one list entry per batch instance; the singleton
  dimensions of \<open>first_node\<close>, \<open>current_node\<close>, \<open>i\<close> and \<open>action_mask\<close> are dropped.
  The key \<open>i\<close> of the source is the field \<open>i_step\<close>.  In \<open>action_mask\<close>, \<open>True\<close>
  means not visited, i.e. the action is allowed.
\<close>

record td =
  observation :: "matrix list"
  first_node :: "int list"
  current_node :: "int list"
  i_step :: "int list"
  action_mask :: "bool list list"

text \<open>The reward written by \<open>step\<close> is the float \<open>-inf\<close>.\<close>

datatype reward_value = MinusInfinity | Finite real

text \<open>
  The \<open>"next"\<close> entry returned by \<open>step\<close>; the key \<open>done\<close> of the source is the
  field \<open>done_flag\<close>.
\<close>

record td_next = td +
  reward :: "reward_value list"
  done_flag :: "bool list"

text \<open>
  \<open>_reset\<close>.  The observation comes from the caller (\<open>td["observation"]\<close> or
  \<open>init_obs\<close>, here one optional argument) or from \<open>generate_data\<close>; nothing is
  checked on a supplied observation.  The batch size is the caller's, else the
  observation's leading dimension, else the environment's.  Building the tensordict
  raises when the observation's leading dimension is not the batch size.  The mask has
  \<open>num_loc\<close> entries per instance, whatever the size of the matrices.
\<close>

definition reset ::
  "env \<Rightarrow> matrix list option \<Rightarrow> nat option \<Rightarrow> (nat \<Rightarrow> nat \<Rightarrow> nat \<Rightarrow> real)
     \<Rightarrow> (error + td) option" where
  "reset e init_obs bs_arg rand =
     (let bs = (case bs_arg of
                  Some b \<Rightarrow> b
                | None \<Rightarrow> (case init_obs of None \<Rightarrow> batch_size e | Some dm \<Rightarrow> length dm))
      in case (case init_obs of None \<Rightarrow> generate_data e bs rand | Some dm \<Rightarrow> Some (Inr dm)) of
           None \<Rightarrow> None
         | Some (Inl err) \<Rightarrow> Some (Inl err)
         | Some (Inr init_dm) \<Rightarrow>
             if length init_dm \<noteq> bs then Some (Inl RuntimeError)
             else Some (Inr \<lparr>observation = init_dm,
                              first_node = replicate bs 0,
                              current_node = replicate bs 0,
                              i_step = replicate bs 0,
                              action_mask = replicate bs (replicate (num_loc e) True)\<rparr>))"

text \<open>
  Modelled from the spec: \<open>batch_to_scalar\<close> of \<open>rl4co.envs.utils\<close> is not among the
  sources.  The instances of a batch advance in lock-step, so the step counter is the
  same for all of them; the helper reads it off the first instance and raises on an
  empty batch.
\<close>

definition batch_to_scalar :: "int list \<Rightarrow> error + int" where
  "batch_to_scalar xs = (case xs of [] \<Rightarrow> Inl IndexError | x # _ \<Rightarrow> Inr x)"

text \<open>
  \<open>mask.scatter(-1, index, 0)\<close> with the instance's action at every index position:
  the mask entry of the action becomes false.  An action outside the mask raises, and so
  does a batch of actions whose size is not the batch size of the mask.
\<close>

definition scatter_zero :: "bool list list \<Rightarrow> int list \<Rightarrow> error + bool list list" where
  "scatter_zero masks idx =
     (if length idx \<noteq> length masks then Inl RuntimeError
      else collect (map2 (\<lambda>m a. if 0 \<le> a \<and> a < int (length m)
                                   then Inr (m[nat a := False]) else Inl RuntimeError)
                         masks idx))"

definition count_nonzero :: "bool list \<Rightarrow> nat" where
  "count_nonzero m = length (filter (\<lambda>x. x) m)"

text \<open>
  \<open>torch.count_nonzero(available.squeeze(), dim=-1) <= 0\<close>.  The mask has the shape
  \<open>(B, 1, n)\<close> and \<open>squeeze()\<close> drops every dimension of size one.  With \<open>B \<noteq> 1\<close> and
  \<open>n \<noteq> 1\<close> the shape \<open>(B, n)\<close> is left and the count along the last dimension gives one
  flag per instance.  With \<open>B = 1\<close> or \<open>n = 1\<close> the batch dimension or the node dimension
  is dropped as well, and the count along the last dimension that is left gives a tensor
  without batch dimension: that is \<open>None\<close> here.
\<close>

definition done_of :: "bool list list \<Rightarrow> bool list option" where
  "done_of available =
     (if length available = 1 \<or> list_ex (\<lambda>m. length m = 1) available then None
      else Some (map (\<lambda>m. count_nonzero m \<le> 0) available))"

text \<open>
  \<open>_step\<close>: \<open>td\<close> is the state and \<open>action\<close> the entry \<open>td["action"]\<close>.  The result is
  built by \<open>TensorDict({"next": ...}, td.shape)\<close>, which raises when an entry does not
  have the batch dimension: that is the case of \<open>done\<close> and \<open>reward\<close> when the squeeze
  has dropped a dimension too many.
\<close>

definition step :: "td \<Rightarrow> int list \<Rightarrow> error + td_next" where
  "step s action =
     (let current_node' = action in
      case batch_to_scalar (i_step s) of
        Inl e \<Rightarrow> Inl e
      | Inr i0 \<Rightarrow>
          let first_node' = (if i0 = 0 then current_node' else first_node s) in
          case scatter_zero (action_mask s) current_node' of
            Inl e \<Rightarrow> Inl e
          | Inr available \<Rightarrow>
              (case done_of available of
                 None \<Rightarrow> Inl RuntimeError
               | Some done_flag' \<Rightarrow>
                   let reward' = map (\<lambda>_. MinusInfinity) done_flag'
                   in Inr \<lparr>observation = observation s,
                            first_node = first_node',
                            current_node = current_node',
                            i_step = map (\<lambda>x. x + 1) (i_step s),
                            action_mask = available,
                            reward = reward',
                            done_flag = done_flag'\<rparr>))"

text \<open>
  An episode: the caller takes the \<open>"next"\<close> entry as the state of the following call.
  \<open>run s acts\<close> applies the batches of actions \<open>acts\<close> in order and stops at the first
  error.
\<close>

fun run :: "td \<Rightarrow> int list list \<Rightarrow> error + td" where
  "run s [] = Inr s"
| "run s (a # acts) =
     (case step s a of Inl e \<Rightarrow> Inl e | Inr nxt \<Rightarrow> run (td.truncate nxt) acts)"

text \<open>
  A batch of actions is legal in a state when there is one action per instance and each
  is a node whose mask entry is true.
\<close>

definition legal :: "td \<Rightarrow> int list \<Rightarrow> bool" where
  "legal s action =
     (length action = length (action_mask s) \<and>
      list_all (\<lambda>(m, a). 0 \<le> a \<and> a < int (length m) \<and> m ! nat a) (zip (action_mask s) action))"

fun legal_run :: "td \<Rightarrow> int list list \<Rightarrow> bool" where
  "legal_run s [] = True"
| "legal_run s (a # acts) =
     (legal s a \<and> (case step s a of Inl e \<Rightarrow> False | Inr nxt \<Rightarrow> legal_run (td.truncate nxt) acts))"

text \<open>
  Shape of a state on which \<open>step\<close> keeps the batch dimension: one counter, one first
  node and one mask per instance, the same counter for every instance, at least two
  instances, and no mask of exactly one entry.
\<close>

definition wf_td :: "td \<Rightarrow> bool" where
  "wf_td s =
     (2 \<le> length (action_mask s) \<and>
      list_all (\<lambda>m. length m \<noteq> 1) (action_mask s) \<and>
      length (i_step s) = length (action_mask s) \<and>
      length (first_node s) = length (action_mask s) \<and>
      list_all (\<lambda>x. x = hd (i_step s)) (i_step s))"

text \<open>
  A batch of actions is in range when there is one action per instance and each is a
  node of its mask, visited or not.
\<close>

definition in_range :: "td \<Rightarrow> int list \<Rightarrow> bool" where
  "in_range s action =
     (length action = length (action_mask s) \<and>
      list_all (\<lambda>(m, a). 0 \<le> a \<and> a < int (length m)) (zip (action_mask s) action))"

text \<open>
  What holds of a state after \<open>k\<close> legal steps from a reset with \<open>n\<close> nodes and \<open>B\<close>
  instances: every counter is \<open>k\<close>, every mask has \<open>n\<close> entries, \<open>k\<close> of them false.
\<close>

definition episode_inv :: "nat \<Rightarrow> nat \<Rightarrow> nat \<Rightarrow> td \<Rightarrow> bool" where
  "episode_inv n B k s =
     (length (action_mask s) = B \<and>
      i_step s = replicate B (int k) \<and>
      length (first_node s) = B \<and>
      list_all (\<lambda>m. length m = n \<and> length (filter Not m) = k) (action_mask s))"

section \<open>The generator in floating-point arithmetic\<close>

text \<open>
  The tensors of \<open>generate_data\<close> hold binary32 numbers and the bounds \<open>min_dist\<close> and
  \<open>max_dist\<close> are Python floats, that is binary64 numbers.  The definitions above read
  the entries as real numbers; the ones below follow the arithmetic of the program.

  A number of a binary format is counted in units of the smallest positive number of
  the format: \<open>Fin k\<close> is \<open>k\<close> units.  The two zeros are one number here: they compare
  equal and add alike.
\<close>

datatype fl = Fin int | PInf | MInf | NaN

text \<open>
  A format has \<open>prec\<close> bits of significand, the unit \<open>2 ^ - unit_exp\<close>, and its finite
  numbers are below \<open>2 ^ top_exp\<close> units.
\<close>

record format =
  prec :: nat
  unit_exp :: nat
  top_exp :: nat

definition binary32 :: format where
  "binary32 = \<lparr>prec = 24, unit_exp = 149, top_exp = 277\<rparr>"

definition binary64 :: format where
  "binary64 = \<lparr>prec = 53, unit_exp = 1074, top_exp = 2098\<rparr>"

text \<open>The number of bits of a natural number.\<close>

fun bits :: "nat \<Rightarrow> nat" where
  "bits n = (if n = 0 then 0 else Suc (bits (n div 2)))"

text \<open>
  Rounding to nearest, ties to even: \<open>round_mag p hi m sh\<close> is the magnitude of
  \<open>m / 2 ^ sh\<close> units rounded to \<open>p\<close> significant bits, and to a whole number of units
  where the number has fewer bits.  The \<open>d\<close> low bits of \<open>m\<close> are dropped; they round the
  rest up when they are more than half of \<open>2 ^ d\<close>, or exactly half with an odd rest.  A
  result of more than \<open>hi\<close> bits is an overflow, \<open>None\<close>.
\<close>

definition round_mag :: "nat \<Rightarrow> nat \<Rightarrow> nat \<Rightarrow> nat \<Rightarrow> nat option" where
  "round_mag p hi m sh =
     (let d = sh + (bits m - sh - p);
          q = m div 2 ^ d;
          r = m mod 2 ^ d;
          q' = (if 2 ^ d < 2 * r \<or> (2 * r = 2 ^ d \<and> odd q) then q + 1 else q);
          v = q' * 2 ^ (d - sh)
      in if hi < bits v then None else Some v)"

text \<open>The same with a sign; an overflow gives the infinity of that sign.\<close>

definition rnd :: "format \<Rightarrow> int \<Rightarrow> nat \<Rightarrow> fl" where
  "rnd f s sh =
     (case round_mag (prec f) (top_exp f) (nat \<bar>s\<bar>) sh of
        None \<Rightarrow> if s < 0 then MInf else PInf
      | Some v \<Rightarrow> Fin (if s < 0 then - int v else int v))"

text \<open>Addition, negation and multiplication of two numbers of one format.\<close>

fun fadd :: "format \<Rightarrow> fl \<Rightarrow> fl \<Rightarrow> fl" where
  "fadd f (Fin a) (Fin b) = rnd f (a + b) 0"
| "fadd f NaN y = NaN"
| "fadd f x NaN = NaN"
| "fadd f PInf MInf = NaN"
| "fadd f MInf PInf = NaN"
| "fadd f PInf y = PInf"
| "fadd f x PInf = PInf"
| "fadd f MInf y = MInf"
| "fadd f x MInf = MInf"

fun fneg :: "fl \<Rightarrow> fl" where
  "fneg (Fin a) = Fin (- a)"
| "fneg PInf = MInf"
| "fneg MInf = PInf"
| "fneg NaN = NaN"

definition fsub :: "format \<Rightarrow> fl \<Rightarrow> fl \<Rightarrow> fl" where
  "fsub f x y = fadd f x (fneg y)"

fun fsgn :: "fl \<Rightarrow> int" where
  "fsgn (Fin a) = sgn a"
| "fsgn PInf = 1"
| "fsgn MInf = - 1"
| "fsgn NaN = 0"

text \<open>
  The product of \<open>a\<close> units and \<open>b\<close> units is \<open>a * b / 2 ^ unit_exp\<close> units.  An infinity
  times zero is not a number.
\<close>

fun fmul :: "format \<Rightarrow> fl \<Rightarrow> fl \<Rightarrow> fl" where
  "fmul f (Fin a) (Fin b) = rnd f (a * b) (unit_exp f)"
| "fmul f NaN y = NaN"
| "fmul f x NaN = NaN"
| "fmul f x y =
     (if fsgn x * fsgn y = 0 then NaN else if 0 < fsgn x * fsgn y then PInf else MInf)"

text \<open>The number of format \<open>f\<close> converted to format \<open>g\<close>.\<close>

fun cvt :: "format \<Rightarrow> format \<Rightarrow> fl \<Rightarrow> fl" where
  "cvt f g (Fin a) =
     (if unit_exp f \<le> unit_exp g then rnd g (a * 2 ^ (unit_exp g - unit_exp f)) 0
      else rnd g a (unit_exp f - unit_exp g))"
| "cvt f g x = x"

text \<open>
  Comparison.  Nothing is less than or equal to \<open>NaN\<close>, which equals nothing, itself
  included.
\<close>

fun fle :: "fl \<Rightarrow> fl \<Rightarrow> bool" where
  "fle (Fin a) (Fin b) = (a \<le> b)"
| "fle NaN y = False"
| "fle x NaN = False"
| "fle MInf y = True"
| "fle x PInf = True"
| "fle PInf y = False"
| "fle x MInf = False"

definition feq :: "fl \<Rightarrow> fl \<Rightarrow> bool" where
  "feq x y = (x \<noteq> NaN \<and> y \<noteq> NaN \<and> x = y)"

text \<open>The minimum of the tensor library: \<open>NaN\<close> when an argument is \<open>NaN\<close>.\<close>

definition fmin :: "fl \<Rightarrow> fl \<Rightarrow> fl" where
  "fmin x y = (if x = NaN \<or> y = NaN then NaN else if fle x y then x else y)"

fun fmin_list :: "fl list \<Rightarrow> fl" where
  "fmin_list (x # xs) = (case xs of [] \<Rightarrow> x | _ \<Rightarrow> fmin x (fmin_list xs))"

text \<open>
  \<open>torch.rand((*batch_size, num_loc, num_loc)) * (max_dist - min_dist) + min_dist\<close>.
  The random draw is a parameter: \<open>rand b i j\<close> is the binary32 number drawn for entry
  \<open>(i, j)\<close> of instance \<open>b\<close>.  The difference of the bounds is taken in binary64; the
  tensor operations convert their scalar operand to binary32 and round their result to
  binary32.
\<close>

definition scaled_rand32 ::
  "nat \<Rightarrow> fl \<Rightarrow> fl \<Rightarrow> nat \<Rightarrow> (nat \<Rightarrow> nat \<Rightarrow> nat \<Rightarrow> fl) \<Rightarrow> fl list list list" where
  "scaled_rand32 n lo hi bs rand =
     (let c = cvt binary64 binary32 (fsub binary64 hi lo);
          m = cvt binary64 binary32 lo
      in map (\<lambda>b. map (\<lambda>i. map (\<lambda>j. fadd binary32 (fmul binary32 (rand b i j) c) m)
                              [0..<n])
                   [0..<n])
             [0..<bs])"

text \<open>\<open>dms[..., arange(num_loc), arange(num_loc)] = 0\<close> on one matrix.\<close>

definition zero_diagonal32 :: "nat \<Rightarrow> fl list list \<Rightarrow> fl list list" where
  "zero_diagonal32 n m = map (\<lambda>i. (m ! i)[i := Fin 0]) [0..<n]"

text \<open>
  One pass of the loop body on one matrix of format \<open>f\<close>: entry \<open>(i, j)\<close> becomes the
  least of the rounded sums \<open>d[i][k] + d[k][j]\<close>.
\<close>

definition fl_relax :: "format \<Rightarrow> nat \<Rightarrow> fl list list \<Rightarrow> fl list list" where
  "fl_relax f n d =
     map (\<lambda>i. map (\<lambda>j. fmin_list (map (\<lambda>k. fadd f (d ! i ! k) (d ! k ! j)) [0..<n]))
                [0..<n])
         [0..<n]"

definition fl_relax_batch :: "format \<Rightarrow> nat \<Rightarrow> fl list list list \<Rightarrow> error + fl list list list"
  where
  "fl_relax_batch f n dms = (if n = 0 then Inl IndexError else Inr (map (fl_relax f n) dms))"

text \<open>\<open>(dms == old_dms).all()\<close>: every entry equals the entry it replaces.\<close>

definition all_equal :: "fl list list list \<Rightarrow> fl list list list \<Rightarrow> bool" where
  "all_equal dms old_dms = list_all2 (list_all2 (list_all2 feq)) dms old_dms"

text \<open>
  The \<open>while True\<close> loop, and the same loop with a bound on the number of passes.  A run
  that never leaves the loop is \<open>None\<close>; the bounded loop is \<open>None\<close> when it has not left
  after the given number of passes.
\<close>

partial_function (option) fl_closure_loop ::
  "format \<Rightarrow> nat \<Rightarrow> fl list list list \<Rightarrow> (error + fl list list list) option" where
  "fl_closure_loop f n dms =
     (let old_dms = dms in
      case fl_relax_batch f n dms of
        Inl e \<Rightarrow> Some (Inl e)
      | Inr dms' \<Rightarrow> if all_equal dms' old_dms then Some (Inr dms') else fl_closure_loop f n dms')"

fun fl_closure_passes ::
  "format \<Rightarrow> nat \<Rightarrow> nat \<Rightarrow> fl list list list \<Rightarrow> (error + fl list list list) option" where
  "fl_closure_passes f 0 n dms = None"
| "fl_closure_passes f (Suc fuel) n dms =
     (case fl_relax_batch f n dms of
        Inl e \<Rightarrow> Some (Inl e)
      | Inr dms' \<Rightarrow>
          if all_equal dms' dms then Some (Inr dms') else fl_closure_passes f fuel n dms')"

text \<open>
  \<open>generate_data\<close> in the arithmetic of the program: \<open>n\<close>, \<open>lo\<close> and \<open>hi\<close> are the
  attributes \<open>num_loc\<close>, \<open>min_dist\<close> and \<open>max_dist\<close>, the bounds being binary64 numbers.
\<close>

definition generate_data32 ::
  "nat \<Rightarrow> fl \<Rightarrow> fl \<Rightarrow> nat \<Rightarrow> (nat \<Rightarrow> nat \<Rightarrow> nat \<Rightarrow> fl)
     \<Rightarrow> (error + fl list list list) option" where
  "generate_data32 n lo hi bs rand =
     (let dms = scaled_rand32 n lo hi bs rand;
          dms = map (zero_diagonal32 n) dms
      in fl_closure_loop binary32 n dms)"

definition generate_passes32 ::
  "nat \<Rightarrow> nat \<Rightarrow> fl \<Rightarrow> fl \<Rightarrow> nat \<Rightarrow> (nat \<Rightarrow> nat \<Rightarrow> nat \<Rightarrow> fl)
     \<Rightarrow> (error + fl list list list) option" where
  "generate_passes32 fuel n lo hi bs rand =
     (let dms = scaled_rand32 n lo hi bs rand;
          dms = map (zero_diagonal32 n) dms
      in fl_closure_passes binary32 fuel n dms)"

subsection \<open>Notions used to state and prove the properties of the floating-point loop\<close>

text \<open>
  \<open>ldexp a c\<close> is the number of \<open>a * 2 ^ c\<close> units: in binary32, \<open>ldexp a c\<close> is
  \<open>a * 2 ^ (c - 149)\<close>, and in binary64 \<open>a * 2 ^ (c - 1074)\<close>.
\<close>

definition ldexp :: "int \<Rightarrow> nat \<Rightarrow> fl" where
  "ldexp a c = Fin (a * 2 ^ c)"

text \<open>A draw given by the table of its entries.\<close>

definition table_rand :: "fl list list list \<Rightarrow> nat \<Rightarrow> nat \<Rightarrow> nat \<Rightarrow> fl" where
  "table_rand t b i j = t ! b ! i ! j"

text \<open>
  A number scaled by \<open>2 ^ c\<close>, and the format in which the scaled number has the digits
  of the number: the unit is \<open>2 ^ c\<close> times greater.
\<close>

fun scale :: "nat \<Rightarrow> fl \<Rightarrow> fl" where
  "scale c (Fin a) = Fin (a * 2 ^ c)"
| "scale c x = x"

definition coarser :: "nat \<Rightarrow> format \<Rightarrow> format" where
  "coarser c f = \<lparr>prec = prec f, unit_exp = unit_exp f - c, top_exp = top_exp f - c\<rparr>"

text \<open>
  A finite number that is not negative and is a number of the format, that is, is left
  as it is by rounding.
\<close>

fun proper :: "format \<Rightarrow> fl \<Rightarrow> bool" where
  "proper f (Fin a) = (0 \<le> a \<and> rnd f a 0 = Fin a)"
| "proper f x = False"

text \<open>
  A matrix of \<open>n\<close> rows and columns whose entries are such numbers and whose diagonal is
  zero.
\<close>

definition proper_matrix :: "format \<Rightarrow> nat \<Rightarrow> fl list list \<Rightarrow> bool" where
  "proper_matrix f n d =
     (length d = n \<and> list_all (\<lambda>row. length row = n \<and> list_all (proper f) row) d \<and>
      list_all (\<lambda>i. d ! i ! i = Fin 0) [0..<n])"

text \<open>The units of a finite number, and their sum over a batch.\<close>

fun units :: "fl \<Rightarrow> nat" where
  "units (Fin a) = nat a"
| "units x = 0"

definition total_units :: "fl list list list \<Rightarrow> nat" where
  "total_units dms = sum_list (map units (concat (concat dms)))"

subsection \<open>Notions used to state and prove the properties of the closure\<close>

text \<open>Matrices with no negative entry, and with a zero diagonal.\<close>

definition nonneg :: "matrix \<Rightarrow> bool" where
  "nonneg d = list_all (list_all (\<lambda>x. 0 \<le> x)) d"

definition zero_diag :: "matrix \<Rightarrow> bool" where
  "zero_diag d = list_all (\<lambda>i. d ! i ! i = 0) [0..<length d]"

text \<open>
  The weight in \<open>d\<close> of a walk given by its list of nodes, and the walks from \<open>i\<close> to
  \<open>j\<close> over the nodes below \<open>n\<close>.
\<close>

fun wt :: "matrix \<Rightarrow> nat list \<Rightarrow> real" where
  "wt d (u # v # w) = d ! u ! v + wt d (v # w)"
| "wt d w = 0"

definition walk :: "nat \<Rightarrow> nat \<Rightarrow> nat \<Rightarrow> nat list \<Rightarrow> bool" where
  "walk n i j w = (w \<noteq> [] \<and> hd w = i \<and> last w = j \<and> list_all (\<lambda>v. v < n) w)"


text \<open>A draw with \<open>lo\<close> just above the diagonal and \<open>hi\<close> elsewhere.\<close>

definition chain_rand :: "real \<Rightarrow> real \<Rightarrow> nat \<Rightarrow> nat \<Rightarrow> nat \<Rightarrow> real" where
  "chain_rand lo hi b i j = (if j = Suc i then lo else hi)"

declare closure_loop.simps [code]

declare fl_closure_loop.simps [code]

declare bits.simps [simp del]

section \<open>Properties of the scorer\<close>


lemma collect_map_Inr: "collect (map Inr vs) = Inr vs"
  by (induction vs) auto

lemma collect_Inr_D: "collect rs = Inr vs \<Longrightarrow> rs = map Inr vs"
  by (induction rs arbitrary: vs rule: collect.induct) (auto split: sum.splits)


lemma collect_Inl_mem: "collect rs = Inl e \<Longrightarrow> Inl e \<in> set rs"
  by (induction rs rule: collect.induct) (auto split: sum.splits)

lemma entry_not_InvalidTour: "entry m s t \<noteq> Inl InvalidTour" "Inl InvalidTour \<noteq> entry m s t"
  by (simp_all add: entry_def split: option.splits)

lemma tour_cost_not_InvalidTour: "tour_cost m row \<noteq> Inl InvalidTour"
proof
  assume a: "tour_cost m row = Inl InvalidTour"
  then have "collect (map2 (entry m) row (roll1 row)) = Inl InvalidTour"
    by (simp add: tour_cost_def split: sum.splits)
  then have "Inl InvalidTour \<in> set (map2 (entry m) row (roll1 row))"
    by (rule collect_Inl_mem)
  then show False by (auto simp: entry_not_InvalidTour)
qed

lemma collect_tour_cost_not_InvalidTour:
  "(\<forall>r \<in> set rs. r \<noteq> Inl InvalidTour) \<Longrightarrow> collect rs \<noteq> Inl InvalidTour"
  using collect_Inl_mem by blast

lemma valid_tour_iff: "valid_tour row \<longleftrightarrow> mset row = mset (map int [0..<length row])"
proof
  assume "valid_tour row"
  then have "mset (sort row) = mset (map int [0..<length row])" by (simp add: valid_tour_def)
  then show "mset row = mset (map int [0..<length row])" by simp
next
  assume h: "mset row = mset (map int [0..<length row])"
  have "sorted (map int [0..<length row])"
    by (simp add: sorted_map sorted_wrt_iff_nth_less)
  with h have "sort row = map int [0..<length row]"
    by (metis properties_for_sort)
  then show "valid_tour row" by (simp add: valid_tour_def)
qed

lemma get_reward_InvalidTour_iff:
  "get_reward dms actions = Inl InvalidTour \<longleftrightarrow> \<not> list_all valid_tour actions"
proof (cases "list_all valid_tour actions")
  case False then show ?thesis by (simp add: get_reward_def)
next
  case True
  have "get_reward dms actions \<noteq> Inl InvalidTour"
    using True unfolding get_reward_def Let_def
    by (auto intro!: collect_tour_cost_not_InvalidTour simp: tour_cost_not_InvalidTour tour_cost_not_InvalidTour[symmetric])
  with True show ?thesis by simp
qed



lemma length_roll1 [simp]: "length (roll1 xs) = length xs"
  by (simp add: roll1_def)





section \<open>Properties of \<open>reset\<close>, \<open>step\<close> and episodes\<close>


lemma legal_in_range: "legal s a \<Longrightarrow> in_range s a"
  by (auto simp: legal_def in_range_def list_all_iff)

lemma scatter_zero_in_range:
  assumes "in_range s a"
  shows "scatter_zero (action_mask s) a = Inr (map2 (\<lambda>m x. m[nat x := False]) (action_mask s) a)"
proof -
  let ?g = "\<lambda>m a. if 0 \<le> a \<and> a < int (length m) then Inr (m[nat a := False]) else Inl RuntimeError"
  have len: "length a = length (action_mask s)" using assms by (simp add: in_range_def)
  have "map2 ?g (action_mask s) a = map Inr (map2 (\<lambda>m x. m[nat x := False]) (action_mask s) a)"
    using assms by (auto simp: in_range_def list_all_iff)
  then have "collect (map2 ?g (action_mask s) a)
           = Inr (map2 (\<lambda>m x. m[nat x := False]) (action_mask s) a)"
    by (simp only: collect_map_Inr)
  then show ?thesis using len by (simp add: scatter_zero_def)
qed

lemma done_of_Some:
  assumes "length av \<noteq> 1" and "list_all (\<lambda>m. length m \<noteq> 1) av"
  shows "done_of av = Some (map (\<lambda>m. count_nonzero m \<le> 0) av)"
  using assms by (auto simp: done_of_def list_all_iff list_ex_iff)

lemma done_of_SomeD:
  assumes "done_of av = Some d"
  shows "d = map (\<lambda>m. count_nonzero m \<le> 0) av" and "length av \<noteq> 1"
    and "list_all (\<lambda>m. length m \<noteq> 1) av"
  using assms by (auto simp: done_of_def list_all_iff list_ex_iff split: if_splits)

lemma step_in_range:
  assumes "in_range s a" and "i_step s \<noteq> []" and "length (action_mask s) \<noteq> 1"
    and "list_all (\<lambda>m. length m \<noteq> 1) (action_mask s)"
  shows "step s a =
         Inr \<lparr>observation = observation s,
              first_node = (if hd (i_step s) = 0 then a else first_node s),
              current_node = a,
              i_step = map (\<lambda>x. x + 1) (i_step s),
              action_mask = map2 (\<lambda>m x. m[nat x := False]) (action_mask s) a,
              reward = map (\<lambda>_. MinusInfinity) (action_mask s),
              done_flag = map (\<lambda>m. count_nonzero m \<le> 0)
                            (map2 (\<lambda>m x. m[nat x := False]) (action_mask s) a)\<rparr>"
proof -
  let ?av = "map2 (\<lambda>m x. m[nat x := False]) (action_mask s) a"
  from assms(2) obtain i0 rest where i: "i_step s = i0 # rest" by (cases "i_step s") auto
  have len: "length a = length (action_mask s)" using assms by (simp add: in_range_def)
  have l1: "length ?av \<noteq> 1" using len assms(3) by simp
  have "\<forall>m \<in> set ?av. length m \<noteq> 1"
  proof
    fix m assume "m \<in> set ?av"
    then obtain m0 x where "m0 \<in> set (action_mask s)" and "m = m0[nat x := False]"
      by (auto dest: set_zip_leftD)
    then show "length m \<noteq> 1" using assms(4) by (simp add: list_all_iff)
  qed
  then have "list_all (\<lambda>m. length m \<noteq> 1) ?av" by (simp add: list_all_iff)
  then have d: "done_of ?av = Some (map (\<lambda>m. count_nonzero m \<le> 0) ?av)"
    using l1 by (rule done_of_Some[rotated])
  show ?thesis
    using len by (simp add: step_def batch_to_scalar_def i scatter_zero_in_range[OF assms(1)] Let_def
        d map_replicate_const)
qed

lemma scatter_zero_InrD:
  assumes "scatter_zero masks a = Inr av"
  shows "length a = length masks" and "length av = length masks"
    and "b < length masks \<Longrightarrow> av ! b = (masks ! b)[nat (a ! b) := False]"
proof -
  let ?g = "\<lambda>m a. if 0 \<le> a \<and> a < int (length m) then Inr (m[nat a := False]) else Inl RuntimeError"
  show len: "length a = length masks"
    using assms by (auto simp: scatter_zero_def split: if_splits)
  then have "collect (map2 ?g masks a) = Inr av"
    using assms by (simp add: scatter_zero_def)
  then have eq: "map2 ?g masks a = map Inr av" by (rule collect_Inr_D)
  then have "length (map2 ?g masks a) = length (map Inr av)" by simp
  then show lav: "length av = length masks" using len by simp
  assume b: "b < length masks"
  from eq have "map2 ?g masks a ! b = map Inr av ! b" by simp
  then have "?g (masks ! b) (a ! b) = Inr (av ! b)" using b len lav by simp
  then show "av ! b = (masks ! b)[nat (a ! b) := False]" by (auto split: if_splits)
qed

lemma step_InrD:
  assumes "step s a = Inr nxt"
  shows "observation nxt = observation s" and "current_node nxt = a"
    and "i_step nxt = map (\<lambda>x. x + 1) (i_step s)"
    and "first_node nxt = (if hd (i_step s) = 0 then a else first_node s)"
    and "scatter_zero (action_mask s) a = Inr (action_mask nxt)"
    and "i_step s \<noteq> []"
    and "done_flag nxt = map (\<lambda>m. count_nonzero m \<le> 0) (action_mask nxt)"
    and "length (action_mask nxt) \<noteq> 1"
    and "list_all (\<lambda>m. length m \<noteq> 1) (action_mask nxt)"
  using assms
  by (auto simp: step_def batch_to_scalar_def Let_def
      dest: done_of_SomeD split: list.splits sum.splits option.splits)

lemma truncate_fields [simp]:
  "observation (td.truncate nxt) = observation nxt"
  "first_node (td.truncate nxt) = first_node nxt"
  "current_node (td.truncate nxt) = current_node nxt"
  "i_step (td.truncate nxt) = i_step nxt"
  "action_mask (td.truncate nxt) = action_mask nxt"
  by (simp_all add: td.truncate_def)

lemma run_observation: "run s acts = Inr s' \<Longrightarrow> observation s' = observation s"
proof (induction acts arbitrary: s)
  case Nil then show ?case by simp
next
  case (Cons a acts)
  then show ?case by (auto split: sum.splits dest: step_InrD(1))
qed

lemma run_append:
  "run s (xs @ ys) = (case run s xs of Inl e \<Rightarrow> Inl e | Inr s' \<Rightarrow> run s' ys)"
  by (induction xs arbitrary: s) (auto split: sum.splits)

lemma legal_run_append:
  "legal_run s (xs @ ys) \<longleftrightarrow>
     legal_run s xs \<and> (case run s xs of Inl e \<Rightarrow> False | Inr s' \<Rightarrow> legal_run s' ys)"
  by (induction xs arbitrary: s) (auto split: sum.splits)

lemma step_mask_length:
  "step s a = Inr nxt \<Longrightarrow> length (action_mask nxt) = length (action_mask s)"
  using step_InrD(5) scatter_zero_InrD(2) by blast

lemma step_mask_mono:
  assumes "step s a = Inr nxt" and "b < length (action_mask s)"
  shows "length (action_mask nxt ! b) = length (action_mask s ! b)"
    and "j < length (action_mask s ! b) \<Longrightarrow> \<not> action_mask s ! b ! j \<Longrightarrow> \<not> action_mask nxt ! b ! j"
proof -
  note sc = step_InrD(5)[OF assms(1)]
  have u: "action_mask nxt ! b = (action_mask s ! b)[nat (a ! b) := False]"
    using sc assms(2) by (rule scatter_zero_InrD(3))
  then show "length (action_mask nxt ! b) = length (action_mask s ! b)" by simp
  assume "j < length (action_mask s ! b)" "\<not> action_mask s ! b ! j"
  then show "\<not> action_mask nxt ! b ! j" using u by (cases "j = nat (a ! b)") simp_all
qed

lemma run_mask_mono:
  assumes "run s acts = Inr s'"
  shows "length (action_mask s') = length (action_mask s) \<and>
         (\<forall>b < length (action_mask s). length (action_mask s' ! b) = length (action_mask s ! b) \<and>
            (\<forall>j < length (action_mask s ! b). \<not> action_mask s ! b ! j \<longrightarrow> \<not> action_mask s' ! b ! j))"
  using assms
proof (induction acts arbitrary: s)
  case Nil then show ?case by simp
next
  case (Cons a acts)
  from Cons.prems obtain nxt where st: "step s a = Inr nxt" and r: "run (td.truncate nxt) acts = Inr s'"
    by (auto split: sum.splits)
  note ih = Cons.IH[OF r]
  have l: "length (action_mask nxt) = length (action_mask s)" using st by (rule step_mask_length)
  show ?case
  proof (intro conjI allI impI)
    show "length (action_mask s') = length (action_mask s)" using ih l by simp
  next
    fix b assume b: "b < length (action_mask s)"
    then show "length (action_mask s' ! b) = length (action_mask s ! b)"
      using ih l step_mask_mono(1)[OF st b] by simp
  next
    fix b j assume b: "b < length (action_mask s)" and j: "j < length (action_mask s ! b)"
      and n: "\<not> action_mask s ! b ! j"
    have "\<not> action_mask nxt ! b ! j" using step_mask_mono(2)[OF st b j n] .
    then show "\<not> action_mask s' ! b ! j"
      using ih l b j step_mask_mono(1)[OF st b] by simp
  qed
qed

lemma filter_Not_update:
  "j < length m \<Longrightarrow> m ! j \<Longrightarrow> length (filter Not (m[j := False])) = Suc (length (filter Not m))"
proof (induction m arbitrary: j)
  case Nil then show ?case by simp
next
  case (Cons x m) then show ?case by (cases j) auto
qed

lemma filter_Not_update_False:
  "\<not> m ! j \<Longrightarrow> m[j := False] = m"
  by (metis list_update_id)

lemma reset_inv:
  assumes "reset e obs bs rand = Some (Inr s0)"
  shows "episode_inv (num_loc e) (length (observation s0)) 0 s0"
    and "first_node s0 = replicate (length (observation s0)) 0"
    and "current_node s0 = replicate (length (observation s0)) 0"
    and "action_mask s0 = replicate (length (observation s0)) (replicate (num_loc e) True)"
  using assms
  by (auto simp: reset_def episode_inv_def Let_def list_all_iff
      split: option.splits sum.splits if_splits)

lemma step_inv:
  assumes inv: "episode_inv n B k s" and l: "legal s a" and st: "step s a = Inr nxt"
  shows "episode_inv n B (Suc k) (td.truncate nxt)"
proof -
  have lenB: "length (action_mask s) = B" using inv by (simp add: episode_inv_def)
  have lena: "length a = B" using l lenB by (simp add: legal_def)
  note sc = step_InrD(5)[OF st]
  have lm: "length (action_mask nxt) = B" using scatter_zero_InrD(2)[OF sc] lenB by simp
  have i: "i_step nxt = replicate B (int (Suc k))"
    using step_InrD(3)[OF st] inv by (simp add: episode_inv_def)
  have f: "length (first_node nxt) = B"
    using step_InrD(4)[OF st] inv lena by (simp add: episode_inv_def)
  have "list_all (\<lambda>m. length m = n \<and> length (filter Not m) = Suc k) (action_mask nxt)"
    unfolding list_all_length
  proof (intro allI impI)
    fix b assume "b < length (action_mask nxt)"
    then have b: "b < length (action_mask s)" using lm lenB by simp
    have u: "action_mask nxt ! b = (action_mask s ! b)[nat (a ! b) := False]"
      using sc b by (rule scatter_zero_InrD(3))
    have "(action_mask s ! b, a ! b) \<in> set (zip (action_mask s) a)"
      using b lena lenB by (metis in_set_zip fst_conv snd_conv length_zip min.idem nth_zip nth_mem)
    then have lg: "0 \<le> a ! b \<and> a ! b < int (length (action_mask s ! b)) \<and> action_mask s ! b ! nat (a ! b)"
      using l by (auto simp: legal_def list_all_iff)
    have old: "length (action_mask s ! b) = n \<and> length (filter Not (action_mask s ! b)) = k"
      using inv b by (simp add: episode_inv_def list_all_length)
    have "nat (a ! b) < length (action_mask s ! b)" using lg by (simp add: nat_less_iff)
    then show "length (action_mask nxt ! b) = n \<and> length (filter Not (action_mask nxt ! b)) = Suc k"
      using u old lg by (simp add: filter_Not_update)
  qed
  then show ?thesis using lm i f by (simp add: episode_inv_def)
qed

lemma run_inv:
  assumes "episode_inv n B k s" and "legal_run s acts"
  shows "\<exists>s'. run s acts = Inr s' \<and> episode_inv n B (k + length acts) s'"
  using assms
proof (induction acts arbitrary: s k)
  case Nil then show ?case by simp
next
  case (Cons a acts)
  from Cons.prems(2) obtain nxt where l: "legal s a" and st: "step s a = Inr nxt"
    and lr: "legal_run (td.truncate nxt) acts"
    by (auto split: sum.splits)
  have "episode_inv n B (Suc k) (td.truncate nxt)" using Cons.prems(1) l st by (rule step_inv)
  from Cons.IH[OF this lr] show ?case using st by simp
qed

lemma inv_wf: "episode_inv n B k s \<Longrightarrow> 2 \<le> B \<Longrightarrow> n \<noteq> 1 \<Longrightarrow> wf_td s"
  by (auto simp: episode_inv_def wf_td_def list_all_iff)

lemma count_nonzero_zero_iff:
  "count_nonzero m \<le> 0 \<longleftrightarrow> length (filter Not m) = length m"
proof -
  have "length (filter (\<lambda>x. x) m) + length (filter Not m) = length m"
    using sum_length_filter_compl[of "\<lambda>x. x" m] by simp
  then show ?thesis by (auto simp: count_nonzero_def)
qed

lemma count_nonzero_zero_iff_set:
  "count_nonzero m \<le> 0 \<longleftrightarrow> True \<notin> set m"
  by (auto simp: count_nonzero_def filter_empty_conv)

text \<open>
  On a batch of at least two instances whose masks do not have exactly one entry, a legal
  batch of actions has the effects of the transition function on every instance, and
  along an episode from a reset \<open>done\<close> holds exactly when the counter reaches \<open>num_loc\<close>.
\<close>

lemma step_legal_effects:
  assumes wf: "wf_td s" and l: "legal s action" and b: "b < length (action_mask s)"
  shows "\<exists>nxt. step s action = Inr nxt \<and>
           first_node nxt ! b = (if i_step s ! b = 0 then action ! b else first_node s ! b) \<and>
           current_node nxt ! b = action ! b \<and>
           length (action_mask nxt ! b) = length (action_mask s ! b) \<and>
           action_mask nxt ! b ! nat (action ! b) = False \<and>
           (\<forall>j < length (action_mask s ! b).
              j \<noteq> nat (action ! b) \<longrightarrow> action_mask nxt ! b ! j = action_mask s ! b ! j) \<and>
           i_step nxt ! b = i_step s ! b + 1 \<and>
           (done_flag nxt ! b \<longleftrightarrow> True \<notin> set (action_mask nxt ! b)) \<and>
           (\<forall>e obs bs rand s0 acts.
              reset e obs bs rand = Some (Inr s0) \<and> legal_run s0 acts \<and> run s0 acts = Inr s
              \<longrightarrow> (done_flag nxt ! b \<longleftrightarrow> i_step nxt ! b = int (num_loc e)))"
proof -
  have li: "length (i_step s) = length (action_mask s)"
    and lf: "length (first_node s) = length (action_mask s)"
    and ls: "\<forall>x \<in> set (i_step s). x = hd (i_step s)"
    and l1: "length (action_mask s) \<noteq> 1"
    and w1: "list_all (\<lambda>m. length m \<noteq> 1) (action_mask s)"
    using wf by (auto simp: wf_td_def list_all_iff)
  have ne: "i_step s \<noteq> []" using wf by (auto simp: wf_td_def)
  have la: "length action = length (action_mask s)" using l by (simp add: legal_def)
  have "(action_mask s ! b, action ! b) \<in> set (zip (action_mask s) action)"
    using b la by (metis in_set_zip fst_conv snd_conv length_zip min.idem nth_zip nth_mem)
  then have lg: "0 \<le> action ! b \<and> action ! b < int (length (action_mask s ! b)) \<and>
                 action_mask s ! b ! nat (action ! b)"
    using l by (auto simp: legal_def list_all_iff)
  then have nb: "nat (action ! b) < length (action_mask s ! b)" by (simp add: nat_less_iff)
  obtain nxt where st: "step s action = Inr nxt"
    using step_in_range[OF legal_in_range[OF l] ne l1 w1] by blast
  note sc = step_InrD(5)[OF st]
  have u: "action_mask nxt ! b = (action_mask s ! b)[nat (action ! b) := False]"
    using sc b by (rule scatter_zero_InrD(3))
  have lm: "length (action_mask nxt) = length (action_mask s)" using st by (rule step_mask_length)
  have hd_b: "hd (i_step s) = i_step s ! b" using ls b li by (metis nth_mem)
  have c1: "first_node nxt ! b = (if i_step s ! b = 0 then action ! b else first_node s ! b)"
    using step_InrD(4)[OF st] hd_b by simp
  have c2: "current_node nxt ! b = action ! b" using step_InrD(2)[OF st] by simp
  have c3: "length (action_mask nxt ! b) = length (action_mask s ! b)" using u by simp
  have c4: "action_mask nxt ! b ! nat (action ! b) = False" using u nb by simp
  have c5: "\<forall>j < length (action_mask s ! b).
              j \<noteq> nat (action ! b) \<longrightarrow> action_mask nxt ! b ! j = action_mask s ! b ! j"
    using u by simp
  have c6: "i_step nxt ! b = i_step s ! b + 1"
    using step_InrD(3)[OF st] b li by simp
  have d: "done_flag nxt ! b = (count_nonzero (action_mask nxt ! b) \<le> 0)"
    using step_InrD(7)[OF st] b lm by simp
  then have c7: "done_flag nxt ! b \<longleftrightarrow> True \<notin> set (action_mask nxt ! b)"
    by (simp only: count_nonzero_zero_iff_set)
  have c8: "done_flag nxt ! b \<longleftrightarrow> i_step nxt ! b = int (num_loc e)"
    if r: "reset e obs bs rand = Some (Inr s0)" and lr: "legal_run s0 acts"
      and ru: "run s0 acts = Inr s" for e obs bs rand s0 acts
  proof -
    let ?B = "length (observation s0)"
    have "episode_inv (num_loc e) ?B 0 s0" using r by (rule reset_inv)
    from run_inv[OF this lr] ru have "episode_inv (num_loc e) ?B (length acts) s" by simp
    then have "episode_inv (num_loc e) ?B (Suc (length acts)) (td.truncate nxt)"
      using l st by (rule step_inv)
    then have i: "i_step nxt = replicate ?B (int (Suc (length acts)))"
      and m: "list_all (\<lambda>m. length m = num_loc e \<and> length (filter Not m) = Suc (length acts))
                (action_mask nxt)"
      and lB: "length (action_mask nxt) = ?B"
      by (simp_all add: episode_inv_def)
    have "length (action_mask nxt ! b) = num_loc e \<and>
          length (filter Not (action_mask nxt ! b)) = Suc (length acts)"
      using m b lm by (simp add: list_all_length)
    moreover have "i_step nxt ! b = int (Suc (length acts))" using i b lm lB by simp
    ultimately show ?thesis using d by (auto simp only: count_nonzero_zero_iff)
  qed
  show ?thesis
    using st c1 c2 c3 c4 c5 c6 c7 c8 by blast
qed

section \<open>Properties of the metric closure\<close>

subsection \<open>One relaxation pass and walk weights\<close>


lemma relax_square: "square n (relax n d)"
  by (simp add: square_def relax_def list_all_iff)

lemma relax_nth:
  "i < n \<Longrightarrow> j < n \<Longrightarrow>
   relax n d ! i ! j = min_list (map (\<lambda>k. d ! i ! k + d ! k ! j) [0..<n])"
  by (simp add: relax_def)

lemma relax_le:
  assumes "i < n" "j < n" "k < n"
  shows "relax n d ! i ! j \<le> d ! i ! k + d ! k ! j"
proof -
  let ?xs = "map (\<lambda>k. d ! i ! k + d ! k ! j) [0..<n]"
  have ne: "?xs \<noteq> []" using assms by auto
  have "d ! i ! k + d ! k ! j \<in> set ?xs" using assms by auto
  then have "Min (set ?xs) \<le> d ! i ! k + d ! k ! j" by (intro Min_le) auto
  then show ?thesis unfolding relax_nth[OF assms(1,2)] min_list_Min[OF ne] .
qed

lemma relax_attained:
  assumes "i < n" "j < n"
  shows "\<exists>k < n. relax n d ! i ! j = d ! i ! k + d ! k ! j"
proof -
  let ?xs = "map (\<lambda>k. d ! i ! k + d ! k ! j) [0..<n]"
  have ne: "?xs \<noteq> []" using assms by auto
  have "Min (set ?xs) \<in> set ?xs" using ne by (intro Min_in) auto
  then have "relax n d ! i ! j \<in> set ?xs" unfolding relax_nth[OF assms] min_list_Min[OF ne] .
  then show ?thesis by auto
qed

lemma wt_single [simp]: "wt d [v] = 0"
  by simp

lemma wt_append: "wt d (xs @ y # zs) = wt d (xs @ [y]) + wt d (y # zs)"
proof (induction xs rule: induct_list012)
  case 1 show ?case by simp
next
  case (2 x) show ?case by simp
next
  case (3 x x' xs) then show ?case by simp
qed

subsection \<open>Iterated passes are shortest walks of bounded length\<close>


lemma square_nth:
  "square n d \<Longrightarrow> i < n \<Longrightarrow> length (d ! i) = n"
  by (simp add: square_def list_all_length)

lemma square_eqI:
  assumes "square n a" and "square n b"
    and "\<And>i j. i < n \<Longrightarrow> j < n \<Longrightarrow> a ! i ! j = b ! i ! j"
  shows "a = b"
proof (rule nth_equalityI)
  show "length a = length b" using assms(1,2) by (simp add: square_def)
next
  fix i assume "i < length a"
  then have i: "i < n" using assms(1) by (simp add: square_def)
  show "a ! i = b ! i"
  proof (rule nth_equalityI)
    show "length (a ! i) = length (b ! i)"
      using square_nth[OF assms(1) i] square_nth[OF assms(2) i] by simp
  next
    fix j assume "j < length (a ! i)"
    then have "j < n" using square_nth[OF assms(1) i] by simp
    then show "a ! i ! j = b ! i ! j" using i by (rule assms(3)[rotated])
  qed
qed

lemma iter_square: "square n d \<Longrightarrow> square n ((relax n ^^ p) d)"
  by (cases p) (simp_all add: relax_square)

lemma entry_nonneg:
  assumes "square n d" and "nonneg d" and "i < n" and "j < n"
  shows "0 \<le> d ! i ! j"
proof -
  have "d ! i \<in> set d" using assms(1,3) by (simp add: square_def)
  moreover have "d ! i ! j \<in> set (d ! i)" using square_nth[OF assms(1,3)] assms(4) by simp
  ultimately show ?thesis using assms(2) by (auto simp: nonneg_def list_all_iff)
qed

lemma entry_diag:
  assumes "square n d" and "zero_diag d" and "i < n"
  shows "d ! i ! i = 0"
  using assms by (simp add: square_def zero_diag_def list_all_iff)

lemma wt_nonneg:
  assumes "square n d" and "nonneg d"
  shows "list_all (\<lambda>v. v < n) w \<Longrightarrow> 0 \<le> wt d w"
proof (induction w rule: induct_list012)
  case 1 then show ?case by simp
next
  case (2 v) then show ?case by simp
next
  case (3 u v w)
  then have "0 \<le> wt d (v # w)" by simp
  moreover have "0 \<le> d ! u ! v" using 3(3) by (intro entry_nonneg[OF assms]) simp_all
  ultimately show ?case by simp
qed

lemma wt_join:
  assumes "w1 \<noteq> []" and "w2 \<noteq> []" and "last w1 = hd w2"
  shows "wt d (w1 @ tl w2) = wt d w1 + wt d w2"
proof -
  have "wt d (butlast w1 @ last w1 # tl w2) = wt d (butlast w1 @ [last w1]) + wt d (last w1 # tl w2)"
    by (rule wt_append)
  moreover have "butlast w1 @ last w1 # tl w2 = w1 @ tl w2"
    using assms(1) by (metis append_butlast_last_id append.assoc append_Cons append_Nil)
  moreover have "butlast w1 @ [last w1] = w1" using assms(1) by simp
  moreover have "last w1 # tl w2 = w2" using assms(2,3) by simp
  ultimately show ?thesis by simp
qed

lemma walk_ends:
  assumes "walk n i j w"
  shows "i < n" and "j < n"
proof -
  have "w \<noteq> []" using assms by (simp add: walk_def)
  then have "hd w \<in> set w" and "last w \<in> set w" by simp_all
  then show "i < n" and "j < n" using assms by (auto simp: walk_def list_all_iff)
qed

lemma walk_join:
  assumes "walk n i k w1" and "walk n k j w2"
  shows "walk n i j (w1 @ tl w2)"
proof -
  have ne1: "w1 \<noteq> []" and ne2: "w2 \<noteq> []" using assms by (simp_all add: walk_def)
  have "last (w1 @ tl w2) = j"
  proof (cases "tl w2 = []")
    case True
    then have "w2 = [hd w2]" using ne2 by (metis list.collapse)
    then have "last w2 = hd w2" by (metis last.simps)
    then show ?thesis using True assms by (simp add: walk_def)
  next
    case False
    then have "last (tl w2) = last w2" using ne2 by (metis last_tl)
    then show ?thesis using False assms by (simp add: walk_def)
  qed
  moreover have "set (tl w2) \<subseteq> set w2" using ne2 by (metis list.set_sel(2) subsetI)
  ultimately show ?thesis using assms ne1 by (auto simp: walk_def list_all_iff)
qed

lemma iter_attained:
  assumes "i < n" and "j < n"
  shows "\<exists>w. walk n i j w \<and> (relax n ^^ p) d ! i ! j = wt d w"
  using assms
proof (induction p arbitrary: i j)
  case 0
  have "walk n i j [i, j]" using 0 by (simp add: walk_def)
  moreover have "wt d [i, j] = d ! i ! j" by simp
  ultimately show ?case by (metis funpow_0)
next
  case (Suc p)
  let ?D = "(relax n ^^ p) d"
  obtain k where k: "k < n" and e: "relax n ?D ! i ! j = ?D ! i ! k + ?D ! k ! j"
    using relax_attained[OF Suc.prems] by blast
  obtain w1 where w1: "walk n i k w1" and e1: "?D ! i ! k = wt d w1"
    using Suc.IH[OF Suc.prems(1) k] by blast
  obtain w2 where w2: "walk n k j w2" and e2: "?D ! k ! j = wt d w2"
    using Suc.IH[OF k Suc.prems(2)] by blast
  have "walk n i j (w1 @ tl w2)" using w1 w2 by (rule walk_join)
  moreover have "wt d (w1 @ tl w2) = wt d w1 + wt d w2"
    using w1 w2 by (intro wt_join) (simp_all add: walk_def)
  ultimately show ?case using e e1 e2 by (metis funpow.simps(2) o_apply)
qed

lemma iter_upper:
  assumes sq: "square n d" and zd: "zero_diag d"
  shows "walk n i j w \<Longrightarrow> length w \<le> 2 ^ p + 1 \<Longrightarrow> (relax n ^^ p) d ! i ! j \<le> wt d w"
proof (induction p arbitrary: i j w)
  case 0
  then have ne: "w \<noteq> []" and len: "length w \<le> 2" by (simp_all add: walk_def)
  show ?case
  proof (cases w)
    case Nil then show ?thesis using ne by simp
  next
    case (Cons u r)
    show ?thesis
    proof (cases r)
      case Nil
      then have "i = u" and "j = u" using Cons 0(1) by (simp_all add: walk_def)
      moreover have "u < n" using 0(1) Cons by (simp add: walk_def)
      ultimately show ?thesis using Cons Nil entry_diag[OF sq zd] by simp
    next
      case (Cons v r')
      then have "r' = []" using len \<open>w = u # r\<close> by simp
      then have "w = [u, v]" using Cons \<open>w = u # r\<close> by simp
      then show ?thesis using 0(1) by (simp add: walk_def)
    qed
  qed
next
  case (Suc p)
  let ?D = "(relax n ^^ p) d"
  have ne: "w \<noteq> []" using Suc.prems(1) by (simp add: walk_def)
  define h where "h = min (length w - 1) (2 ^ p)"
  have h: "h < length w" using ne by (simp add: h_def min_less_iff_disj)
  let ?w1 = "take (Suc h) w" and ?w2 = "drop h w" and ?k = "w ! h"
  have all: "list_all (\<lambda>v. v < n) w" using Suc.prems(1) by (simp add: walk_def)
  have k: "?k < n" using all h by (simp add: list_all_length)
  have "hd ?w1 = i" using Suc.prems(1) ne by (simp add: walk_def hd_take)
  moreover have "last ?w1 = ?k" using h by (simp add: take_Suc_conv_app_nth)
  moreover have "list_all (\<lambda>v. v < n) ?w1"
    using all by (auto simp: list_all_iff dest: in_set_takeD)
  ultimately have w1: "walk n i ?k ?w1" using ne by (simp add: walk_def)
  have "hd ?w2 = ?k" using h by (simp add: hd_drop_conv_nth)
  moreover have "last ?w2 = j" using Suc.prems(1) h by (simp add: walk_def)
  moreover have "list_all (\<lambda>v. v < n) ?w2"
    using all by (auto simp: list_all_iff dest: in_set_dropD)
  ultimately have w2: "walk n ?k j ?w2" using h by (simp add: walk_def)
  have l1: "length ?w1 \<le> 2 ^ p + 1" using h by (simp add: h_def)
  have l2: "length ?w2 \<le> 2 ^ p + 1" using Suc.prems(2) ne by (auto simp: h_def min_def)
  have "?w1 @ tl ?w2 = w" by (simp add: tl_drop drop_Suc[symmetric] del: take_Suc drop_Suc)
  moreover have "wt d (?w1 @ tl ?w2) = wt d ?w1 + wt d ?w2"
    using w1 w2 h by (intro wt_join) (simp_all add: walk_def)
  ultimately have split: "wt d w = wt d ?w1 + wt d ?w2" by simp
  have ij: "i < n" "j < n" using walk_ends[OF Suc.prems(1)] by simp_all
  have "relax n ?D ! i ! j \<le> ?D ! i ! ?k + ?D ! ?k ! j" using ij k by (rule relax_le)
  also have "\<dots> \<le> wt d ?w1 + wt d ?w2"
    using Suc.IH[OF w1 l1] Suc.IH[OF w2 l2] by simp
  finally show ?case using split by simp
qed

lemma walk_shortcut:
  assumes sq: "square n d" and nn: "nonneg d"
  shows "walk n i j w \<Longrightarrow> \<exists>w'. walk n i j w' \<and> distinct w' \<and> wt d w' \<le> wt d w"
proof (induction "length w" arbitrary: w rule: less_induct)
  case less
  show ?case
  proof (cases "distinct w")
    case True
    then show ?thesis using less.prems by blast
  next
    case False
    then obtain xs ys zs y where w: "w = xs @ [y] @ ys @ [y] @ zs"
      using not_distinct_decomp by blast
    let ?w = "xs @ y # zs"
    have all: "list_all (\<lambda>v. v < n) w" using less.prems by (simp add: walk_def)
    have "hd ?w = hd w" using w by (cases xs) simp_all
    moreover have "last ?w = last w" using w by (cases zs rule: rev_cases) simp_all
    moreover have "list_all (\<lambda>v. v < n) ?w" using all w by (auto simp: list_all_iff)
    ultimately have wk: "walk n i j ?w" using less.prems by (simp add: walk_def)
    have "wt d w = wt d (xs @ [y]) + wt d (y # ys @ y # zs)"
      using wt_append[of d xs y "ys @ y # zs"] w by simp
    also have "wt d (y # ys @ y # zs) = wt d ((y # ys) @ [y]) + wt d (y # zs)"
      using wt_append[of d "y # ys" y zs] by simp
    finally have "wt d w = wt d ?w + wt d ((y # ys) @ [y])"
      using wt_append[of d xs y zs] by simp
    moreover have "0 \<le> wt d ((y # ys) @ [y])"
      using all w by (intro wt_nonneg[OF sq nn]) (auto simp: list_all_iff)
    ultimately have le: "wt d ?w \<le> wt d w" by simp
    have "length ?w < length w" using w by simp
    from less.hyps[OF this wk] obtain w' where "walk n i j w'" "distinct w'" "wt d w' \<le> wt d ?w"
      by blast
    then show ?thesis using le by (meson order_trans)
  qed
qed

lemma distinct_walk_length:
  assumes "distinct w" and "list_all (\<lambda>v. v < n) w"
  shows "length w \<le> n"
proof -
  have "set w \<subseteq> {..<n}" using assms(2) by (auto simp: list_all_iff)
  then have "card (set w) \<le> card {..<n}" by (intro card_mono) simp_all
  then show ?thesis using assms(1) by (simp add: distinct_card)
qed

lemma iter_le_any:
  assumes sq: "square n d" and nn: "nonneg d" and zd: "zero_diag d"
    and n: "n \<le> 2 ^ p + 1" and i: "i < n" and j: "j < n"
  shows "(relax n ^^ p) d ! i ! j \<le> (relax n ^^ q) d ! i ! j"
proof -
  obtain w where w: "walk n i j w" and e: "(relax n ^^ q) d ! i ! j = wt d w"
    using iter_attained[OF i j] by blast
  obtain w' where w': "walk n i j w'" and dist: "distinct w'" and le: "wt d w' \<le> wt d w"
    using walk_shortcut[OF sq nn w] by blast
  have "length w' \<le> n" using dist w' by (intro distinct_walk_length) (simp_all add: walk_def)
  then have "length w' \<le> 2 ^ p + 1" using n by simp
  then have "(relax n ^^ p) d ! i ! j \<le> wt d w'" using w' by (intro iter_upper[OF sq zd])
  then show ?thesis using le e by simp
qed

lemma relax_fixpoint:
  assumes sq: "square n d" and nn: "nonneg d" and zd: "zero_diag d" and n: "n \<le> 2 ^ p + 1"
  shows "relax n ((relax n ^^ p) d) = (relax n ^^ p) d"
proof (rule square_eqI[of n])
  show "square n (relax n ((relax n ^^ p) d))" by (rule relax_square)
  show "square n ((relax n ^^ p) d)" using sq by (rule iter_square)
next
  fix i j assume i: "i < n" and j: "j < n"
  have n': "n \<le> 2 ^ Suc p + 1" using n by simp
  have "(relax n ^^ p) d ! i ! j \<le> (relax n ^^ Suc p) d ! i ! j"
    using sq nn zd n i j by (rule iter_le_any)
  moreover have "(relax n ^^ Suc p) d ! i ! j \<le> (relax n ^^ p) d ! i ! j"
    using sq nn zd n' i j by (rule iter_le_any)
  ultimately show "relax n ((relax n ^^ p) d) ! i ! j = (relax n ^^ p) d ! i ! j" by simp
qed

lemma iter_bounds:
  assumes sq: "square n d" and nn: "nonneg d" and zd: "zero_diag d" and i: "i < n" and j: "j < n"
  shows "(relax n ^^ p) d ! i ! j \<le> d ! i ! j" and "0 \<le> (relax n ^^ p) d ! i ! j"
    and "(relax n ^^ p) d ! i ! i = 0"
proof -
  have "walk n i j [i, j]" using i j by (simp add: walk_def)
  moreover have "length [i, j] \<le> 2 ^ p + 1" by simp
  ultimately have "(relax n ^^ p) d ! i ! j \<le> wt d [i, j]" by (rule iter_upper[OF sq zd])
  then show "(relax n ^^ p) d ! i ! j \<le> d ! i ! j" by simp
  have ge: "0 \<le> (relax n ^^ p) d ! a ! b" if a: "a < n" and b: "b < n" for a b
  proof -
    obtain w where w: "walk n a b w" and e: "(relax n ^^ p) d ! a ! b = wt d w"
      using iter_attained[OF a b] by blast
    have "0 \<le> wt d w" using w by (intro wt_nonneg[OF sq nn]) (simp add: walk_def)
    then show ?thesis using e by simp
  qed
  show "0 \<le> (relax n ^^ p) d ! i ! j" using i j by (rule ge)
  have "walk n i i [i]" using i by (simp add: walk_def)
  moreover have "length [i] \<le> 2 ^ p + 1" by simp
  ultimately have "(relax n ^^ p) d ! i ! i \<le> wt d [i]" by (rule iter_upper[OF sq zd])
  then show "(relax n ^^ p) d ! i ! i = 0" using ge[OF i i] by simp
qed

subsection \<open>The loop\<close>


lemma funpow_map: "(map f ^^ p) xs = map ((f :: 'a \<Rightarrow> 'a) ^^ p) xs"
  by (induction p) simp_all

lemma closure_loop_unfold:
  "closure_loop n dms =
     (case relax_batch n dms of
        Inl e \<Rightarrow> Some (Inl e)
      | Inr dms' \<Rightarrow> if dms' = dms then Some (Inr dms') else closure_loop n dms')"
  by (subst closure_loop.simps) (simp add: Let_def)

lemma closure_passes_loop:
  "closure_passes f n dms = Some y \<Longrightarrow> closure_loop n dms = Some y"
proof (induction f arbitrary: dms)
  case 0 then show ?case by simp
next
  case (Suc f)
  show ?case
  proof (cases "relax_batch n dms")
    case (Inl e)
    then have "closure_loop n dms = Some (Inl e)" by (subst closure_loop_unfold) simp
    moreover have "Some y = Some (Inl e)" using Suc.prems Inl by simp
    ultimately show ?thesis by simp
  next
    case (Inr dms')
    show ?thesis
    proof (cases "dms' = dms")
      case True
      then have "closure_loop n dms = Some (Inr dms')" using Inr by (subst closure_loop_unfold) simp
      moreover have "Some y = Some (Inr dms')" using Suc.prems Inr True by simp
      ultimately show ?thesis by simp
    next
      case False
      then have "closure_passes f n dms' = Some y" using Suc.prems Inr by simp
      then have "closure_loop n dms' = Some y" by (rule Suc.IH)
      moreover have "closure_loop n dms = closure_loop n dms'"
        using False Inr by (subst closure_loop_unfold) simp
      ultimately show ?thesis by simp
    qed
  qed
qed

lemma closure_passes_fixpoint:
  assumes "0 < n"
  shows "map (relax n) ((map (relax n) ^^ p) dms) = (map (relax n) ^^ p) dms \<Longrightarrow>
         closure_passes (Suc p) n dms = Some (Inr ((map (relax n) ^^ p) dms))"
proof (induction p arbitrary: dms)
  case 0
  then show ?case using assms by (simp add: relax_batch_def)
next
  case (Suc p)
  show ?case
  proof (cases "map (relax n) dms = dms")
    case True
    then have "(map (relax n) ^^ q) dms = dms" for q by (induction q) simp_all
    then show ?thesis using True assms by (simp add: relax_batch_def)
  next
    case False
    have "map (relax n) ((map (relax n) ^^ p) (map (relax n) dms))
          = (map (relax n) ^^ p) (map (relax n) dms)"
      using Suc.prems by (simp only: funpow_Suc_right o_apply)
    from Suc.IH[OF this] show ?thesis
      using False assms by (simp add: relax_batch_def funpow_swap1)
  qed
qed

lemma closure_loop_result:
  assumes a: "closure_loop n dms = Some y"
  shows "(n = 0 \<and> y = Inl IndexError) \<or>
         (0 < n \<and> (\<exists>p. y = Inr ((map (relax n) ^^ p) dms) \<and>
            map (relax n) ((map (relax n) ^^ p) dms) = (map (relax n) ^^ p) dms))"
proof (rule closure_loop.raw_induct[OF _ a])
  fix loop :: "nat \<Rightarrow> matrix list \<Rightarrow> (error + matrix list) option" and n dms y
  assume ih: "\<And>n dms y. loop n dms = Some y \<Longrightarrow>
         (n = 0 \<and> y = Inl IndexError) \<or>
         (0 < n \<and> (\<exists>p. y = Inr ((map (relax n) ^^ p) dms) \<and>
            map (relax n) ((map (relax n) ^^ p) dms) = (map (relax n) ^^ p) dms))"
    and body: "(let old_dms = dms in
                case relax_batch n dms of
                  Inl e \<Rightarrow> Some (Inl e)
                | Inr dms' \<Rightarrow> if dms' = old_dms then Some (Inr dms') else loop n dms') = Some y"
  show "(n = 0 \<and> y = Inl IndexError) \<or>
         (0 < n \<and> (\<exists>p. y = Inr ((map (relax n) ^^ p) dms) \<and>
            map (relax n) ((map (relax n) ^^ p) dms) = (map (relax n) ^^ p) dms))"
  proof (cases "n = 0")
    case True
    then show ?thesis using body by (simp add: relax_batch_def)
  next
    case False
    then have n: "0 < n" by simp
    show ?thesis
    proof (cases "map (relax n) dms = dms")
      case True
      then have "y = Inr ((map (relax n) ^^ 0) dms)" using body n by (simp add: relax_batch_def)
      moreover have "map (relax n) ((map (relax n) ^^ 0) dms) = (map (relax n) ^^ 0) dms"
        using True by simp
      ultimately show ?thesis using n by blast
    next
      case F: False
      then have "loop n (map (relax n) dms) = Some y" using body n by (simp add: relax_batch_def)
      from ih[OF this] n obtain p where
        y: "y = Inr ((map (relax n) ^^ p) (map (relax n) dms))"
        and f: "map (relax n) ((map (relax n) ^^ p) (map (relax n) dms))
                = (map (relax n) ^^ p) (map (relax n) dms)"
        by auto
      have "y = Inr ((map (relax n) ^^ Suc p) dms)" using y by (simp only: funpow_Suc_right o_apply)
      moreover have "map (relax n) ((map (relax n) ^^ Suc p) dms) = (map (relax n) ^^ Suc p) dms"
        using f by (simp only: funpow_Suc_right o_apply)
      ultimately show ?thesis using n by blast
    qed
  qed
qed

lemma closure_loop_terminates:
  assumes n: "0 < n" and wf: "list_all (\<lambda>d. square n d \<and> nonneg d \<and> zero_diag d) dms"
    and p: "n \<le> 2 ^ p + 1"
  shows "closure_passes (Suc p) n dms = Some (Inr (map (relax n ^^ p) dms))"
    and "closure_loop n dms = Some (Inr (map (relax n ^^ p) dms))"
    and "map (relax n) (map (relax n ^^ p) dms) = map (relax n ^^ p) dms"
proof -
  have "relax n ((relax n ^^ p) d) = (relax n ^^ p) d" if "d \<in> set dms" for d
    using wf that p by (intro relax_fixpoint) (auto simp: list_all_iff)
  then show fx: "map (relax n) (map (relax n ^^ p) dms) = map (relax n ^^ p) dms"
    by (simp add: comp_def)
  then have "map (relax n) ((map (relax n) ^^ p) dms) = (map (relax n) ^^ p) dms"
    by (simp only: funpow_map)
  from closure_passes_fixpoint[OF n this]
  show cp: "closure_passes (Suc p) n dms = Some (Inr (map (relax n ^^ p) dms))"
    by (simp only: funpow_map)
  then show "closure_loop n dms = Some (Inr (map (relax n ^^ p) dms))"
    by (rule closure_passes_loop)
qed

lemma le_two_power_ceil_log:
  assumes "0 < n"
  shows "n \<le> 2 ^ nat \<lceil>log 2 (real n)\<rceil>"
proof -
  let ?P = "nat \<lceil>log 2 (real n)\<rceil>"
  have "log 2 (real n) \<le> real_of_int \<lceil>log 2 (real n)\<rceil>" by simp
  also have "\<dots> \<le> real ?P" by simp
  finally have "log 2 (real n) \<le> real ?P" .
  then have "2 powr log 2 (real n) \<le> 2 powr real ?P" by (intro powr_mono) simp_all
  moreover have "2 powr log 2 (real n) = real n" using assms by simp
  moreover have "(2::real) powr real ?P = 2 ^ ?P" by (rule powr_realpow) simp
  ultimately have "real n \<le> real (2 ^ ?P)" by simp
  then show ?thesis by (simp only: of_nat_le_iff)
qed

lemma iter_diag_le:
  assumes "i < n" and "d ! i ! i \<le> 0"
  shows "(relax n ^^ p) d ! i ! i \<le> 0"
proof (induction p)
  case 0 then show ?case using assms by simp
next
  case (Suc p)
  have "relax n ((relax n ^^ p) d) ! i ! i
        \<le> (relax n ^^ p) d ! i ! i + (relax n ^^ p) d ! i ! i"
    using assms(1) by (intro relax_le)
  then show ?case using Suc by simp
qed

text \<open>The matrices handed to the loop by \<open>generate_data\<close>.\<close>

lemma initial_entry:
  assumes "b < bs" and "i < num_loc e" and "j < num_loc e"
  shows "map (zero_diagonal (num_loc e)) (scaled_rand e bs rand) ! b ! i ! j
         = (if j = i then 0 else rand b i j * (max_dist e - min_dist e) + min_dist e)"
  using assms by (simp add: scaled_rand_def zero_diagonal_def)

lemma initial_square:
  assumes "b < bs"
  shows "square (num_loc e) (map (zero_diagonal (num_loc e)) (scaled_rand e bs rand) ! b)"
  using assms by (simp add: scaled_rand_def zero_diagonal_def square_def list_all_iff)

lemma initial_length: "length (map (zero_diagonal (num_loc e)) (scaled_rand e bs rand)) = bs"
  by (simp add: scaled_rand_def)




lemma two_power_bound: "n \<le> 2 ^ n + (1::nat)"
proof -
  have "n < 2 ^ n" by simp
  then show ?thesis by linarith
qed

section \<open>Claims\<close>



text \<open>
  C2.  When every row of \<open>actions\<close> has length \<open>N\<close>, \<open>get_reward\<close> fails with
  \<open>InvalidTour\<close> exactly when some row is not a permutation of \<open>[0, N)\<close>, and then
  no cost is returned for any instance.
\<close>

theorem get_reward_invalid_tour_iff_not_permutation:
  assumes "list_all (\<lambda>row. length row = N) actions"
  shows "(get_reward dms actions = Inl InvalidTour \<longleftrightarrow>
            (\<exists>row \<in> set actions. mset row \<noteq> mset (map int [0..<N]))) \<and>
         ((\<exists>row \<in> set actions. mset row \<noteq> mset (map int [0..<N])) \<longrightarrow>
            (\<forall>costs. get_reward dms actions \<noteq> Inr costs))"
proof -
  have "list_all valid_tour actions \<longleftrightarrow>
        (\<forall>row \<in> set actions. mset row = mset (map int [0..<N]))"
    using assms by (auto simp: list_all_iff valid_tour_iff)
  then have "get_reward dms actions = Inl InvalidTour \<longleftrightarrow>
            (\<exists>row \<in> set actions. mset row \<noteq> mset (map int [0..<N]))"
    by (simp add: get_reward_InvalidTour_iff)
  then show ?thesis by auto
qed

theorem get_reward_invalid_tour_witness:
  "get_reward [[[0, 1, 1, 1], [1, 0, 1, 1], [1, 1, 0, 1], [1, 1, 1, 0]]] [[0, 1, 1, 3]]
     = Inl InvalidTour"
proof -
  have u: "map int [0..<4] = [0, 1, 2, 3]"
    by (simp add: upt_conv_Cons)
  have "mset [0, 1, 1, 3 :: int] \<noteq> mset (map int [0..<4])"
  proof
    assume "mset [0, 1, 1, 3 :: int] = mset (map int [0..<4])"
    then have "count (mset [0, 1, 1, 3 :: int]) 2 = count (mset [0, 1, 2, 3 :: int]) 2"
      by (simp only: u)
    then show False by simp
  qed
  then show ?thesis
    using get_reward_invalid_tour_iff_not_permutation
      [of 4 "[[0, 1, 1, 3]]" "[[[0, 1, 1, 1], [1, 0, 1, 1], [1, 1, 0, 1], [1, 1, 1, 0]]]"]
    by simp
qed

text \<open>
  C5.  The transition function does not produce a next state for every state and legal
  action.  On a batch of one instance (the reset state of three nodes, action 0) the
  squeeze drops the batch dimension, \<open>done\<close> and \<open>reward\<close> come without it, and building
  the result raises.
\<close>

theorem step_batch_of_one_raises:
  "step \<lparr>observation = [[[0, 2, 9], [1, 0, 3], [4, 5, 0]]], first_node = [0],
          current_node = [0], i_step = [0], action_mask = [[True, True, True]]\<rparr> [0]
   = Inl RuntimeError"
  by (simp add: step_def batch_to_scalar_def scatter_zero_def done_of_def)

text \<open>
  C4.  A reset state has step counter 0, current node and first node 0 and a mask that is
  true everywhere.  Along any sequence of legal steps from it, a mask entry that is
  false in an intermediate state is false in every later state, and in every state
  reached the number of false entries of each mask is the step counter.
\<close>

theorem mask_monotone_and_count:
  assumes r: "reset e obs bs rand = Some (Inr s0)" and lr: "legal_run s0 (acts @ rest)"
  shows "i_step s0 = replicate (length (observation s0)) 0 \<and>
         current_node s0 = replicate (length (observation s0)) 0 \<and>
         first_node s0 = replicate (length (observation s0)) 0 \<and>
         action_mask s0 = replicate (length (observation s0)) (replicate (num_loc e) True) \<and>
         (\<exists>s s'. run s0 acts = Inr s \<and> run s0 (acts @ rest) = Inr s' \<and>
            (\<forall>b < length (observation s0). \<forall>j < num_loc e.
               \<not> action_mask s ! b ! j \<longrightarrow> \<not> action_mask s' ! b ! j) \<and>
            (\<forall>b < length (observation s0).
               length (action_mask s' ! b) = num_loc e \<and>
               int (length (filter Not (action_mask s' ! b))) = i_step s' ! b))"
proof -
  let ?B = "length (observation s0)"
  let ?n = "num_loc e"
  have inv0: "episode_inv ?n ?B 0 s0" using r by (rule reset_inv(1))
  have lr1: "legal_run s0 acts" using lr by (simp add: legal_run_append)
  from run_inv[OF inv0 lr1] obtain s where ru1: "run s0 acts = Inr s"
    and inv1: "episode_inv ?n ?B (length acts) s" by auto
  have lr2: "legal_run s rest" using lr ru1 by (simp add: legal_run_append)
  from run_inv[OF inv1 lr2] obtain s' where ru2: "run s rest = Inr s'"
    and inv2: "episode_inv ?n ?B (length acts + length rest) s'" by auto
  have ru: "run s0 (acts @ rest) = Inr s'" using ru1 ru2 by (simp add: run_append)
  have lB: "length (action_mask s) = ?B" using inv1 by (simp add: episode_inv_def)
  have ln: "\<And>b. b < ?B \<Longrightarrow> length (action_mask s ! b) = ?n"
    using inv1 by (simp add: episode_inv_def list_all_length)
  have mono: "\<forall>b < ?B. \<forall>j < ?n. \<not> action_mask s ! b ! j \<longrightarrow> \<not> action_mask s' ! b ! j"
    using run_mask_mono[OF ru2] lB ln by simp
  have cnt: "\<forall>b < ?B. length (action_mask s' ! b) = ?n \<and>
               int (length (filter Not (action_mask s' ! b))) = i_step s' ! b"
    using inv2 by (simp add: episode_inv_def list_all_length)
  have i0: "i_step s0 = replicate ?B 0" using inv0 by (simp add: episode_inv_def)
  show ?thesis
    using i0 reset_inv(2-4)[OF r] ru1 ru mono cnt by blast
qed

theorem mask_monotone_and_count_witness:
  "\<exists>s s'. run \<lparr>observation = [[[0, 2, 9], [1, 0, 3], [4, 5, 0]],
                               [[0, 1, 4], [2, 0, 6], [3, 5, 0]]],
               first_node = [0, 0], current_node = [0, 0], i_step = [0, 0],
               action_mask = [[True, True, True], [True, True, True]]\<rparr> [[0, 1]] = Inr s \<and>
          run \<lparr>observation = [[[0, 2, 9], [1, 0, 3], [4, 5, 0]],
                               [[0, 1, 4], [2, 0, 6], [3, 5, 0]]],
               first_node = [0, 0], current_node = [0, 0], i_step = [0, 0],
               action_mask = [[True, True, True], [True, True, True]]\<rparr> [[0, 1], [1, 2], [2, 0]] = Inr s' \<and>
          (\<not> action_mask s ! 0 ! 0 \<longrightarrow> \<not> action_mask s' ! 0 ! 0) \<and>
          (\<not> action_mask s ! 1 ! 1 \<longrightarrow> \<not> action_mask s' ! 1 ! 1) \<and>
          int (length (filter Not (action_mask s' ! 0))) = i_step s' ! 0 \<and>
          int (length (filter Not (action_mask s' ! 1))) = i_step s' ! 1"
proof -
  let ?e = "init 3 0 1 2"
  let ?start = "\<lparr>observation = [[[0, 2, 9], [1, 0, 3], [4, 5, 0]],
                               [[0, 1, 4], [2, 0, 6], [3, 5, 0]]],
               first_node = [0, 0], current_node = [0, 0], i_step = [0, 0],
               action_mask = [[True, True, True], [True, True, True]]\<rparr>"
  have r: "reset ?e (Some [[[0, 2, 9], [1, 0, 3], [4, 5, 0]],
                          [[0, 1, 4], [2, 0, 6], [3, 5, 0]]]) None (\<lambda>_ _ _. 0) = Some (Inr ?start)"
    by (simp add: reset_def init_def eval_nat_numeral)
  have lr: "legal_run ?start ([[0, 1]] @ [[1, 2], [2, 0]])"
    by code_simp
  from mask_monotone_and_count[OF r lr]
  obtain s s' where "run ?start [[0, 1]] = Inr s"
    and "run ?start ([[0, 1]] @ [[1, 2], [2, 0]]) = Inr s'"
    and m: "\<forall>b < length (observation ?start). \<forall>j < num_loc ?e.
               \<not> action_mask s ! b ! j \<longrightarrow> \<not> action_mask s' ! b ! j"
    and c: "\<forall>b < length (observation ?start).
               length (action_mask s' ! b) = num_loc ?e \<and>
               int (length (filter Not (action_mask s' ! b))) = i_step s' ! b"
    by blast
  moreover have "\<not> action_mask s ! 0 ! 0 \<longrightarrow> \<not> action_mask s' ! 0 ! 0"
    using m by (simp add: init_def)
  moreover have "\<not> action_mask s ! 1 ! 1 \<longrightarrow> \<not> action_mask s' ! 1 ! 1"
    using m by (simp add: init_def)
  moreover have "int (length (filter Not (action_mask s' ! 0))) = i_step s' ! 0"
    using c by simp
  moreover have "int (length (filter Not (action_mask s' ! 1))) = i_step s' ! 1"
    using c by simp
  ultimately show ?thesis by auto
qed

text \<open>
  The claim as stated fails.  In a batch of two instances, after the first instance has
  visited node 0 and the second node 1, the first instance chooses node 0 again: nothing
  is raised, and the call returns a next state in which the step counter went from 1 to 2.
\<close>

theorem step_illegal_action_counterexample:
  "step \<lparr>observation = [[[0, 2, 9], [1, 0, 3], [4, 5, 0]],
                          [[0, 1, 4], [2, 0, 6], [3, 5, 0]]],
          first_node = [0, 1], current_node = [0, 1], i_step = [1, 1],
          action_mask = [[False, True, True], [True, False, True]]\<rparr> [0, 2]
   = Inr \<lparr>observation = [[[0, 2, 9], [1, 0, 3], [4, 5, 0]],
                          [[0, 1, 4], [2, 0, 6], [3, 5, 0]]],
          first_node = [0, 1], current_node = [0, 2], i_step = [2, 2],
          action_mask = [[False, True, True], [True, False, False]],
          reward = [MinusInfinity, MinusInfinity], done_flag = [False, False]\<rparr>"
  by code_simp

text \<open>
  C8 (as amended).  \<open>step\<close> has no legality check: on a batch of at least two instances
  whose masks do not have exactly one entry, for a batch of actions that are nodes of
  their masks, an action whose mask entry is already false is not rejected.  The call
  returns a next state whose current node is the action and whose step counter is one
  more, with the first node set by the counter rule and the instance's mask unchanged.
\<close>

theorem step_illegal_action_unchecked:
  assumes wf: "wf_td s" and ir: "in_range s action" and b: "b < length (action_mask s)"
    and il: "\<not> action_mask s ! b ! nat (action ! b)"
  shows "\<exists>nxt. step s action = Inr nxt \<and>
           current_node nxt ! b = action ! b \<and>
           i_step nxt ! b = i_step s ! b + 1 \<and>
           first_node nxt ! b = (if i_step s ! b = 0 then action ! b else first_node s ! b) \<and>
           action_mask nxt ! b = action_mask s ! b"
proof -
  have li: "length (i_step s) = length (action_mask s)"
    and ls: "\<forall>x \<in> set (i_step s). x = hd (i_step s)"
    and l1: "length (action_mask s) \<noteq> 1"
    and w1: "list_all (\<lambda>m. length m \<noteq> 1) (action_mask s)"
    using wf by (auto simp: wf_td_def list_all_iff)
  have ne: "i_step s \<noteq> []" using wf by (auto simp: wf_td_def)
  obtain nxt where st: "step s action = Inr nxt"
    using step_in_range[OF ir ne l1 w1] by blast
  have u: "action_mask nxt ! b = (action_mask s ! b)[nat (action ! b) := False]"
    using step_InrD(5)[OF st] b by (rule scatter_zero_InrD(3))
  have hd_b: "hd (i_step s) = i_step s ! b" using ls b li by (metis nth_mem)
  have "current_node nxt ! b = action ! b" using step_InrD(2)[OF st] by simp
  moreover have "i_step nxt ! b = i_step s ! b + 1" using step_InrD(3)[OF st] b li by simp
  moreover have "first_node nxt ! b = (if i_step s ! b = 0 then action ! b else first_node s ! b)"
    using step_InrD(4)[OF st] hd_b by simp
  moreover have "action_mask nxt ! b = action_mask s ! b"
    using u il by (simp add: filter_Not_update_False)
  ultimately show ?thesis using st by blast
qed

theorem step_illegal_action_unchecked_witness:
  "wf_td \<lparr>observation = [[[0, 2, 9], [1, 0, 3], [4, 5, 0]],
                          [[0, 1, 4], [2, 0, 6], [3, 5, 0]]],
          first_node = [0, 1], current_node = [0, 1], i_step = [1, 1],
          action_mask = [[False, True, True], [True, False, True]]\<rparr> \<and>
   in_range \<lparr>observation = [[[0, 2, 9], [1, 0, 3], [4, 5, 0]],
                          [[0, 1, 4], [2, 0, 6], [3, 5, 0]]],
          first_node = [0, 1], current_node = [0, 1], i_step = [1, 1],
          action_mask = [[False, True, True], [True, False, True]]\<rparr> [0, 2] \<and>
   (\<exists>nxt. step \<lparr>observation = [[[0, 2, 9], [1, 0, 3], [4, 5, 0]],
                          [[0, 1, 4], [2, 0, 6], [3, 5, 0]]],
          first_node = [0, 1], current_node = [0, 1], i_step = [1, 1],
          action_mask = [[False, True, True], [True, False, True]]\<rparr> [0, 2] = Inr nxt \<and>
        current_node nxt ! 0 = 0 \<and> i_step nxt ! 0 = 2 \<and> first_node nxt ! 0 = 0 \<and>
        action_mask nxt ! 0 = [False, True, True])"
proof -
  let ?s = "\<lparr>observation = [[[0, 2, 9], [1, 0, 3], [4, 5, 0]],
                          [[0, 1, 4], [2, 0, 6], [3, 5, 0]]],
          first_node = [0, 1], current_node = [0, 1], i_step = [1, 1],
          action_mask = [[False, True, True], [True, False, True]]\<rparr>"
  have w: "wf_td ?s" by (simp add: wf_td_def)
  have ir: "in_range ?s [0, 2]" by (simp add: in_range_def)
  have b0: "0 < length (action_mask ?s)" by simp
  have il: "\<not> action_mask ?s ! 0 ! nat ([0, 2] ! 0)" by simp
  from step_illegal_action_unchecked[OF w ir b0 il]
  obtain nxt where st: "step ?s [0, 2] = Inr nxt"
    and c: "current_node nxt ! 0 = [0, 2] ! 0"
    and i: "i_step nxt ! 0 = i_step ?s ! 0 + 1"
    and f: "first_node nxt ! 0 = (if i_step ?s ! 0 = 0 then [0, 2] ! 0 else first_node ?s ! 0)"
    and m: "action_mask nxt ! 0 = action_mask ?s ! 0"
    by blast
  have "current_node nxt ! 0 = 0 \<and> i_step nxt ! 0 = 2 \<and> first_node nxt ! 0 = 0 \<and>
        action_mask nxt ! 0 = [False, True, True]"
    using c i f m by simp
  with st w ir show ?thesis by blast
qed

text \<open>
  C10.  \<open>reset\<close> accepts any supplied batch of matrices and stores it as the
  observation, whatever its entries; \<open>step\<close> copies the observation into the next state,
  so after any episode the observation, and with it the result of \<open>get_reward\<close> on it,
  is that of the supplied batch.
\<close>

theorem reset_stores_observation_verbatim:
  assumes "bs = None \<or> bs = Some (length dm)"
  shows "\<exists>s0. reset e (Some dm) bs rand = Some (Inr s0) \<and> observation s0 = dm \<and>
           (\<forall>s action nxt. step s action = Inr nxt \<longrightarrow> observation nxt = observation s) \<and>
           (\<forall>acts s. run s0 acts = Inr s \<longrightarrow>
              observation s = dm \<and> get_reward (observation s) tours = get_reward dm tours)"
proof -
  obtain s0 where r: "reset e (Some dm) bs rand = Some (Inr s0)" and o: "observation s0 = dm"
    using assms by (auto simp: reset_def Let_def)
  have "\<forall>s action nxt. step s action = Inr nxt \<longrightarrow> observation nxt = observation s"
    using step_InrD(1) by blast
  moreover have "\<forall>acts s. run s0 acts = Inr s \<longrightarrow>
              observation s = dm \<and> get_reward (observation s) tours = get_reward dm tours"
    using run_observation o by auto
  ultimately show ?thesis using r o by blast
qed

theorem reset_stores_observation_verbatim_witness:
  "\<exists>s0. reset (init 2 0 1 2) (Some [[[5, - 1], [7, 3]], [[0, 2], [4, 0]]]) None (\<lambda>_ _ _. 0)
           = Some (Inr s0) \<and>
        observation s0 = [[[5, - 1], [7, 3]], [[0, 2], [4, 0]]] \<and>
        (\<exists>s. run s0 [[1, 0], [0, 1]] = Inr s \<and>
             observation s = [[[5, - 1], [7, 3]], [[0, 2], [4, 0]]] \<and>
             get_reward (observation s) [[1, 0], [0, 1]] = Inr [6, 6])"
proof -
  let ?dm = "[[[5, - 1], [7, 3]], [[0, 2], [4, 0]]] :: matrix list"
  have h: "(None :: nat option) = None \<or> None = Some (length ?dm)" by simp
  from reset_stores_observation_verbatim[OF h, of "init 2 0 1 2" "\<lambda>_ _ _. 0" "[[1, 0], [0, 1]]"]
  obtain s0 where r: "reset (init 2 0 1 2) (Some ?dm) None (\<lambda>_ _ _. 0) = Some (Inr s0)"
    and o: "observation s0 = ?dm"
    and k: "\<forall>acts s. run s0 acts = Inr s \<longrightarrow>
              observation s = ?dm \<and>
              get_reward (observation s) [[1, 0], [0, 1]] = get_reward ?dm [[1, 0], [0, 1]]"
    by blast
  have s0: "s0 = \<lparr>observation = ?dm, first_node = [0, 0], current_node = [0, 0],
                  i_step = [0, 0], action_mask = [[True, True], [True, True]]\<rparr>"
    using r by (simp add: reset_def init_def eval_nat_numeral)
  have "run \<lparr>observation = ?dm, first_node = [0, 0], current_node = [0, 0],
                  i_step = [0, 0], action_mask = [[True, True], [True, True]]\<rparr> [[1, 0], [0, 1]]
        = Inr \<lparr>observation = ?dm, first_node = [1, 0], current_node = [0, 1],
                  i_step = [2, 2], action_mask = [[False, False], [False, False]]\<rparr>"
    by code_simp
  then obtain s where ru: "run s0 [[1, 0], [0, 1]] = Inr s" using s0 by simp
  have g: "get_reward ?dm [[1, 0], [0, 1]] = Inr [6, 6]"
    by (simp add: get_reward_def valid_tour_def tour_cost_def roll1_def entry_def
        norm_index_def upt_conv_Cons)
  from k ru have "observation s = ?dm \<and>
              get_reward (observation s) [[1, 0], [0, 1]] = get_reward ?dm [[1, 0], [0, 1]]"
    by blast
  with g ru r o show ?thesis by auto
qed

text \<open>
  C3.  Every batch returned by \<open>generate_data\<close> has one \<open>num_loc \<times> num_loc\<close> matrix per
  instance, each with a zero diagonal and with \<open>d[i][j] \<le> d[i][k] + d[k][j]\<close> for all
  nodes \<open>i\<close>, \<open>j\<close>, \<open>k\<close>.  Nothing is assumed of the bounds or of the draw; symmetry is
  not claimed, and the matrix of the example below is not symmetric.
\<close>

theorem generated_matrices_metric:
  assumes g: "generate_data e bs rand = Some (Inr dms)"
  shows "length dms = bs \<and>
         (\<forall>b < bs. square (num_loc e) (dms ! b) \<and>
            (\<forall>i < num_loc e. dms ! b ! i ! i = 0 \<and>
               (\<forall>j < num_loc e. \<forall>k < num_loc e.
                  dms ! b ! i ! j \<le> dms ! b ! i ! k + dms ! b ! k ! j)))"
proof -
  let ?n = "num_loc e"
  let ?d0 = "map (zero_diagonal ?n) (scaled_rand e bs rand)"
  have "closure_loop ?n ?d0 = Some (Inr dms)" using g by (simp add: generate_data_def Let_def)
  from closure_loop_result[OF this] obtain p where
    r: "dms = (map (relax ?n) ^^ p) ?d0"
    and f: "map (relax ?n) ((map (relax ?n) ^^ p) ?d0) = (map (relax ?n) ^^ p) ?d0"
    by auto
  have r': "dms = map (relax ?n ^^ p) ?d0" using r by (simp only: funpow_map)
  have f': "map (relax ?n) dms = dms" using f r by simp
  have len: "length dms = bs" using r' by (simp add: scaled_rand_def)
  have inst: "square ?n (dms ! b) \<and>
            (\<forall>i < ?n. dms ! b ! i ! i = 0 \<and>
               (\<forall>j < ?n. \<forall>k < ?n. dms ! b ! i ! j \<le> dms ! b ! i ! k + dms ! b ! k ! j))"
    if b: "b < bs" for b
  proof -
    have b0: "b < length ?d0" using b by (simp add: scaled_rand_def)
    have db: "dms ! b = (relax ?n ^^ p) (?d0 ! b)" using r' b0 by simp
    have "map (relax ?n) dms ! b = relax ?n (dms ! b)" using b len by simp
    then have fb: "relax ?n (dms ! b) = dms ! b" using f' by simp
    have sq: "square ?n (dms ! b)"
      unfolding db using initial_square[OF b] by (rule iter_square)
    have tri: "dms ! b ! i ! j \<le> dms ! b ! i ! k + dms ! b ! k ! j"
      if "i < ?n" "j < ?n" "k < ?n" for i j k
      using relax_le[OF that, of "dms ! b"] fb by simp
    have diag: "dms ! b ! i ! i = 0" if i: "i < ?n" for i
    proof -
      have "?d0 ! b ! i ! i \<le> 0" using initial_entry[OF b i i] by simp
      then have "dms ! b ! i ! i \<le> 0" unfolding db using i by (intro iter_diag_le)
      moreover have "dms ! b ! i ! i \<le> dms ! b ! i ! i + dms ! b ! i ! i"
        using tri[OF i i i] .
      ultimately show ?thesis by simp
    qed
    show ?thesis using sq tri diag by blast
  qed
  show ?thesis using len inst by blast
qed

theorem generated_matrices_metric_witness:
  "generate_data (init 3 0 10 1) 1 (chain_rand (1 / 10) (9 / 10))
     = Some (Inr [[[0, 1, 2], [9, 0, 1], [9, 9, 0]]]) \<and>
   [[[0, 1, 2], [9, 0, 1], [9, 9, 0 :: real]]] ! 0 ! 0 ! 2
     \<le> [[[0, 1, 2], [9, 0, 1], [9, 9, 0]]] ! 0 ! 0 ! 1 + [[[0, 1, 2], [9, 0, 1], [9, 9, 0]]] ! 0 ! 1 ! 2 \<and>
   [[[0, 1, 2], [9, 0, 1], [9, 9, 0 :: real]]] ! 0 ! 1 ! 1 = 0"
proof -
  have s: "map (zero_diagonal 3) (scaled_rand (init 3 0 10 1) 1 (chain_rand (1 / 10) (9 / 10)))
           = [[[0, 1, 9], [9, 0, 1], [9, 9, 0]]]"
    by (simp add: scaled_rand_def zero_diagonal_def init_def chain_rand_def upt_conv_Cons
        eval_nat_numeral)
  have "closure_passes 2 3 [[[0, 1, 9], [9, 0, 1], [9, 9, 0]]]
        = Some (Inr [[[0, 1, 2], [9, 0, 1], [9, 9, 0]]])"
    by (simp add: relax_batch_def relax_def upt_conv_Cons eval_nat_numeral)
  then have "closure_loop 3 [[[0, 1, 9], [9, 0, 1], [9, 9, 0]]]
        = Some (Inr [[[0, 1, 2], [9, 0, 1], [9, 9, 0]]])"
    by (rule closure_passes_loop)
  then have g: "generate_data (init 3 0 10 1) 1 (chain_rand (1 / 10) (9 / 10))
        = Some (Inr [[[0, 1, 2], [9, 0, 1], [9, 9, 0]]])"
    using s by (simp add: generate_data_def Let_def init_def)
  from generated_matrices_metric[OF g]
  have "\<forall>b < 1. \<forall>i < 3. [[[0, 1, 2], [9, 0, 1], [9, 9, 0 :: real]]] ! b ! i ! i = 0 \<and>
          (\<forall>j < 3. \<forall>k < 3. [[[0, 1, 2], [9, 0, 1], [9, 9, 0 :: real]]] ! b ! i ! j
             \<le> [[[0, 1, 2], [9, 0, 1], [9, 9, 0]]] ! b ! i ! k
               + [[[0, 1, 2], [9, 0, 1], [9, 9, 0]]] ! b ! k ! j)"
    by (simp add: init_def)
  then have "[[[0, 1, 2], [9, 0, 1], [9, 9, 0 :: real]]] ! 0 ! 1 ! 1 = 0"
    and "[[[0, 1, 2], [9, 0, 1], [9, 9, 0 :: real]]] ! 0 ! 0 ! 2
     \<le> [[[0, 1, 2], [9, 0, 1], [9, 9, 0]]] ! 0 ! 0 ! 1 + [[[0, 1, 2], [9, 0, 1], [9, 9, 0]]] ! 0 ! 1 ! 2"
    by simp_all
  with g show ?thesis by blast
qed

text \<open>
  C6.  On a batch of \<open>n \<times> n\<close> matrices with no negative entry and a zero diagonal the
  loop returns, and in the matrices returned every entry is at most the entry it
  started from, no entry is negative and the diagonal is zero.
\<close>

theorem closure_monotone_sign_preserving:
  assumes n: "0 < n" and wf: "list_all (\<lambda>d. square n d \<and> nonneg d \<and> zero_diag d) dms"
  shows "\<exists>r. closure_loop n dms = Some (Inr r) \<and> length r = length dms \<and>
           (\<forall>b < length dms. \<forall>i < n. \<forall>j < n.
              r ! b ! i ! j \<le> dms ! b ! i ! j \<and> 0 \<le> r ! b ! i ! j \<and> r ! b ! i ! i = 0)"
proof -
  have p: "n \<le> 2 ^ n + 1" by (rule two_power_bound)
  let ?r = "map (relax n ^^ n) dms"
  have cl: "closure_loop n dms = Some (Inr ?r)" using n wf p by (rule closure_loop_terminates(2))
  have "?r ! b ! i ! j \<le> dms ! b ! i ! j \<and> 0 \<le> ?r ! b ! i ! j \<and> ?r ! b ! i ! i = 0"
    if b: "b < length dms" and i: "i < n" and j: "j < n" for b i j
  proof -
    have "square n (dms ! b)" "nonneg (dms ! b)" "zero_diag (dms ! b)"
      using wf b by (simp_all add: list_all_length)
    from iter_bounds[OF this i j, of n] show ?thesis using b by simp
  qed
  then show ?thesis using cl by (intro exI[of _ ?r]) simp
qed

theorem closure_monotone_sign_preserving_witness:
  "\<exists>r. closure_loop 3 [[[0, 1, 9], [9, 0, 1], [9, 9, 0]]] = Some (Inr r) \<and>
        r ! 0 ! 0 ! 2 \<le> 9 \<and> 0 \<le> r ! 0 ! 0 ! 2 \<and> r ! 0 ! 0 ! 0 = 0"
proof -
  have wf: "list_all (\<lambda>d. square 3 d \<and> nonneg d \<and> zero_diag d) [[[0, 1, 9], [9, 0, 1], [9, 9, 0]]]"
    by (simp add: square_def nonneg_def zero_diag_def upt_conv_Cons eval_nat_numeral)
  have n: "0 < (3::nat)" by simp
  from closure_monotone_sign_preserving[OF n wf]
  obtain r where c: "closure_loop 3 [[[0, 1, 9], [9, 0, 1], [9, 9, 0]]] = Some (Inr r)"
    and a: "\<forall>b < length [[[0, 1, 9], [9, 0, 1], [9, 9, 0 :: real]]]. \<forall>i < 3. \<forall>j < 3.
              r ! b ! i ! j \<le> [[[0, 1, 9], [9, 0, 1], [9, 9, 0]]] ! b ! i ! j \<and>
              0 \<le> r ! b ! i ! j \<and> r ! b ! i ! i = 0"
    by blast
  have "r ! 0 ! 0 ! 2 \<le> [[[0, 1, 9], [9, 0, 1], [9, 9, 0]]] ! 0 ! 0 ! 2 \<and>
        0 \<le> r ! 0 ! 0 ! 2 \<and> r ! 0 ! 0 ! 0 = 0"
    using a[rule_format, of 0 0 2] by simp
  then have "r ! 0 ! 0 ! 2 \<le> 9 \<and> 0 \<le> r ! 0 ! 0 ! 2 \<and> r ! 0 ! 0 ! 0 = 0" by simp
  with c show ?thesis by blast
qed

text \<open>
  C7.  On a batch of \<open>n \<times> n\<close> matrices with no negative entry and a zero diagonal the
  loop leaves after at most \<open>\<lceil>log\<^sub>2 n\<rceil> + 1\<close> passes, the last of them being the pass
  that changes nothing, and what it returns is a fixpoint of the pass.
\<close>

theorem closure_terminates_within_log_passes:
  assumes n: "0 < n" and wf: "list_all (\<lambda>d. square n d \<and> nonneg d \<and> zero_diag d) dms"
  shows "\<exists>r. closure_passes (nat \<lceil>log 2 (real n)\<rceil> + 1) n dms = Some (Inr r) \<and>
             closure_loop n dms = Some (Inr r) \<and>
             relax_batch n r = Inr r"
proof -
  let ?p = "nat \<lceil>log 2 (real n)\<rceil>"
  let ?r = "map (relax n ^^ ?p) dms"
  have p: "n \<le> 2 ^ ?p + 1" using le_two_power_ceil_log[OF n] by simp
  have "closure_passes (Suc ?p) n dms = Some (Inr ?r)"
    using n wf p by (rule closure_loop_terminates(1))
  moreover have "closure_loop n dms = Some (Inr ?r)"
    using n wf p by (rule closure_loop_terminates(2))
  moreover have "map (relax n) ?r = ?r"
    using n wf p by (rule closure_loop_terminates(3))
  then have "relax_batch n ?r = Inr ?r" using n by (simp add: relax_batch_def)
  ultimately show ?thesis by (intro exI[of _ ?r]) simp
qed

theorem closure_terminates_within_log_passes_witness:
  "\<exists>r. closure_passes 3 4 [[[0, 1, 9, 9], [9, 0, 1, 9], [9, 9, 0, 1], [9, 9, 9, 0]]] = Some (Inr r) \<and>
        closure_loop 4 [[[0, 1, 9, 9], [9, 0, 1, 9], [9, 9, 0, 1], [9, 9, 9, 0]]] = Some (Inr r) \<and>
        relax_batch 4 r = Inr r"
proof -
  have wf: "list_all (\<lambda>d. square 4 d \<and> nonneg d \<and> zero_diag d)
              [[[0, 1, 9, 9], [9, 0, 1, 9], [9, 9, 0, 1], [9, 9, 9, 0]]]"
    by (simp add: square_def nonneg_def zero_diag_def upt_conv_Cons eval_nat_numeral)
  have n: "0 < (4::nat)" by simp
  have "log 2 (real 4) = 2" using log_of_power_eq[of 4 2 2] by simp
  then have l: "nat \<lceil>log 2 (real 4)\<rceil> + 1 = 3" by simp
  from closure_terminates_within_log_passes[OF n wf] show ?thesis
    by (simp only: l)
qed




end
